theory Spec2Isabelle
  imports Complex_Main "HOL-Library.Word"
begin

section \<open>Schedule evaluator: \<open>isViewScheduled\<close> (src/models/viewTypes.js)\<close>

text \<open>
  A view carries optional metadata; the metadata carries an optional schedule with an
  optional list of day names and optional hours, which are either one range object
  (legacy format) or an array of ranges. A range has the properties \<open>from\<close> and
  \<open>to\<close>, strings in \<open>HH:MM\<close> form; a missing property is \<open>None\<close>.
\<close>

record hour_range =
  range_from :: "string option"
  range_to :: "string option"

datatype hours = OneRange hour_range | RangeList "hour_range list"

record schedule =
  days :: "string list option"
  hours :: "hours option"

record metadata =
  mtype :: string
  rotateAfter :: "int option"
  rotateAt :: "string option"
  schedule :: "schedule option"

record view =
  view_id :: string
  metadata :: "metadata option"

text \<open>
  The \<open>Date\<close> argument \<open>now\<close>, read through \<open>getDay()\<close> (0 is Sunday),
  \<open>getHours()\<close> and \<open>getMinutes()\<close>.
\<close>

record date =
  getDay :: nat
  getHours :: nat
  getMinutes :: nat

text \<open>
  \<open>String.prototype.toLowerCase\<close> on the ASCII letters. No character outside ASCII
  lowers to one of the letters of the seven day names, so membership of a day name in the
  lowered list is decided by the ASCII letters alone.
\<close>

definition lowerChar :: "char \<Rightarrow> char" where
  "lowerChar c =
     (let n = (of_char c :: nat) in if 65 \<le> n \<and> n \<le> 90 then char_of (n + 32) else c)"

definition toLowerCase :: "string \<Rightarrow> string" where
  "toLowerCase s = map lowerChar s"

definition dayNames :: "string list" where
  "dayNames = [''sun'', ''mon'', ''tue'', ''wed'', ''thu'', ''fri'', ''sat'']"

text \<open>\<open>dayNames[now.getDay()]\<close>; an index out of range reads \<open>undefined\<close>.\<close>

definition currentDay :: "date \<Rightarrow> string option" where
  "currentDay now =
     (if getDay now < length dayNames then Some (dayNames ! getDay now) else None)"

text \<open>\<open>scheduledDays.includes(currentDay)\<close>: \<open>undefined\<close> is no element of a list of strings.\<close>

definition includes_day :: "string list \<Rightarrow> string option \<Rightarrow> bool" where
  "includes_day xs d = (case d of None \<Rightarrow> False | Some s \<Rightarrow> s \<in> set xs)"

text \<open>\<open>s.split(':')\<close>: the pieces between the separators, at least one piece.\<close>

fun split_on :: "char \<Rightarrow> string \<Rightarrow> string list" where
  "split_on d [] = [[]]"
| "split_on d (c # cs) =
     (if c = d then [] # split_on d cs
      else (case split_on d cs of [] \<Rightarrow> [[c]] | w # ws \<Rightarrow> (c # w) # ws))"

definition isDigit :: "char \<Rightarrow> bool" where
  "isDigit c = (let n = (of_char c :: nat) in 48 \<le> n \<and> n \<le> 57)"

definition digitVal :: "char \<Rightarrow> int" where
  "digitVal c = int (of_char c) - 48"

text \<open>
  \<open>Number(s)\<close> on a string of decimal digits (the empty string gives 0). \<open>None\<close> is
  \<open>NaN\<close>. The validator's \<open>timeRegex\<close> admits digits and one colon only, so these are
  the strings \<open>Number\<close> meets on a validated schedule; the model covers no other string.
\<close>

definition Number_digits :: "string \<Rightarrow> int option" where
  "Number_digits s =
     (if list_all isDigit s then Some (foldl (\<lambda>a c. 10 * a + digitVal c) 0 s) else None)"

text \<open>
  \<open>const [h, m] = s.split(':').map(Number); h * 60 + m\<close>. A missing second piece is
  \<open>undefined\<close>, and arithmetic on \<open>undefined\<close> or \<open>NaN\<close> gives \<open>NaN\<close>.
\<close>

definition toMinutes :: "string \<Rightarrow> int option" where
  "toMinutes s =
     (case map Number_digits (split_on (CHR '':'') s) of
        Some h # Some m # _ \<Rightarrow> Some (h * 60 + m)
      | _ \<Rightarrow> None)"

text \<open>JavaScript comparisons: false as soon as one side is \<open>NaN\<close>.\<close>

definition js_gt :: "int option \<Rightarrow> int option \<Rightarrow> bool" where
  "js_gt a b = (case (a, b) of (Some x, Some y) \<Rightarrow> x > y | _ \<Rightarrow> False)"

definition js_ge :: "int option \<Rightarrow> int option \<Rightarrow> bool" where
  "js_ge a b = (case (a, b) of (Some x, Some y) \<Rightarrow> x \<ge> y | _ \<Rightarrow> False)"

definition js_lt :: "int option \<Rightarrow> int option \<Rightarrow> bool" where
  "js_lt a b = (case (a, b) of (Some x, Some y) \<Rightarrow> x < y | _ \<Rightarrow> False)"

text \<open>The body of the loop over the ranges once \<open>from\<close> and \<open>to\<close> are truthy.\<close>

definition rangeMatches :: "int \<Rightarrow> string \<Rightarrow> string \<Rightarrow> bool" where
  "rangeMatches currentMinutes f t =
     (let fromMinutes = toMinutes f; toMins = toMinutes t; cur = Some currentMinutes in
      if js_gt fromMinutes toMins
      then js_ge cur fromMinutes \<or> js_lt cur toMins
      else js_ge cur fromMinutes \<and> js_lt cur toMins)"

text \<open>
  The \<open>for\<close> loop: a range whose \<open>from\<close> or \<open>to\<close> is falsy (missing or the empty
  string) is skipped with \<open>continue\<close>; the first matching range sets
  \<open>withinAnyRange\<close> and leaves the loop.
\<close>

fun withinAnyRange :: "int \<Rightarrow> hour_range list \<Rightarrow> bool" where
  "withinAnyRange cur [] = False"
| "withinAnyRange cur (r # rs) =
     (case (range_from r, range_to r) of
        (Some f, Some t) \<Rightarrow>
          if f = [] \<or> t = [] then withinAnyRange cur rs
          else if rangeMatches cur f t then True
          else withinAnyRange cur rs
      | _ \<Rightarrow> withinAnyRange cur rs)"

definition hourRanges :: "hours \<Rightarrow> hour_range list" where
  "hourRanges hs = (case hs of OneRange r \<Rightarrow> [r] | RangeList rs \<Rightarrow> rs)"

definition currentMinutes :: "date \<Rightarrow> int" where
  "currentMinutes now = int (getHours now) * 60 + int (getMinutes now)"

definition isViewScheduled :: "view \<Rightarrow> date \<Rightarrow> bool" where
  "isViewScheduled v now =
     (case metadata v of
        None \<Rightarrow> True
      | Some m \<Rightarrow>
         (case schedule m of
            None \<Rightarrow> True
          | Some s \<Rightarrow>
              if (case days s of
                    None \<Rightarrow> False
                  | Some ds \<Rightarrow> ds \<noteq> [] \<and> \<not> includes_day (map toLowerCase ds) (currentDay now))
              then False
              else (case hours s of
                      None \<Rightarrow> True
                    | Some hs \<Rightarrow>
                        if \<not> withinAnyRange (currentMinutes now) (hourRanges hs) then False
                        else True)))"






subsection \<open>The eligibility rule as the specification words it\<close>






section \<open>Constrained-MTU sink: \<open>ViewCharacteristic.sendViewUpdate\<close> (src/services/ble/ViewCharacteristic.js)\<close>

type_synonym byte = "8 word"

definition FLAG_START :: byte where "FLAG_START = 0x01"
definition FLAG_CONTINUE :: byte where "FLAG_CONTINUE = 0x02"
definition FLAG_END :: byte where "FLAG_END = 0x03"
definition FLAG_SINGLE :: byte where "FLAG_SINGLE = 0x04"

text \<open>
  The characteristic's fields: \<open>subscribed\<close> says that \<open>updateValueCallback\<close> is not
  \<open>null\<close> (a receiver is attached); \<open>maxValueSize\<close> is the size negotiated in
  \<open>onSubscribe\<close>.
\<close>

record characteristic =
  subscribed :: bool
  maxValueSize :: int

text \<open>
  \<open>buffer.copy(packet, 1, a, b)\<close> into a packet of \<open>1 + (b - a)\<close> bytes: the bytes of
  \<open>buffer\<close> from index \<open>a\<close> up to \<open>b\<close>. A packet is the list of its bytes, the flag
  first.
\<close>

definition slice :: "byte list \<Rightarrow> int \<Rightarrow> int \<Rightarrow> byte list" where
  "slice buffer a b = take (nat (b - a)) (drop (nat a) buffer)"

text \<open>
  The \<open>while (offset < totalLen)\<close> loop. \<open>sent\<close> collects the packets handed to
  \<open>updateValueCallback\<close>, in order. With a chunk size of 0 the offset never advances and
  the loop does not end: the result is then \<open>None\<close>.
\<close>

partial_function (option) sendChunks ::
  "int \<Rightarrow> byte list \<Rightarrow> int \<Rightarrow> byte list list \<Rightarrow> byte list list option" where
  "sendChunks chunkSize buffer offset sent =
     (let totalLen = int (length buffer) in
      if offset < totalLen then
        (let isLast = (totalLen - offset \<le> chunkSize);
             currentChunkSize = min chunkSize (totalLen - offset);
             packet = (if isLast then FLAG_END else FLAG_CONTINUE)
                        # slice buffer offset (offset + currentChunkSize)
         in sendChunks chunkSize buffer (offset + currentChunkSize) (sent @ [packet]))
      else Some sent)"

declare sendChunks.simps [code]

text \<open>
  \<open>sendViewUpdate\<close> from the serialized event on (\<open>buffer = Buffer.from(JSON.stringify(viewData))\<close>).
  The result is the list of packets sent, in order. Without a receiver nothing is sent.
  With a negative chunk size \<open>Buffer.alloc\<close> or \<open>writeUInt8\<close> raises a \<open>RangeError\<close>
  before the first packet is sent, which the \<open>try\<close> catches: nothing is sent.
\<close>

definition sendViewUpdate :: "characteristic \<Rightarrow> byte list \<Rightarrow> byte list list option" where
  "sendViewUpdate ch buffer =
     (if \<not> subscribed ch then Some []
      else
        (let chunkSize = maxValueSize ch - 1; totalLen = int (length buffer) in
         if totalLen \<le> chunkSize then Some [FLAG_SINGLE # buffer]
         else if chunkSize < 0 then Some []
         else
           (let currentChunkSize = min chunkSize totalLen;
                packet = FLAG_START # slice buffer 0 (0 + currentChunkSize)
            in sendChunks chunkSize buffer (0 + currentChunkSize) [packet])))"

text \<open>
  The packets the loop sends for the bytes \<open>xs\<close> still to go, as a function of the list:
  each takes up to \<open>c\<close> bytes, the one that empties the list is tagged \<open>END\<close>.
\<close>

function framesOf :: "nat \<Rightarrow> byte list \<Rightarrow> byte list list" where
  "framesOf c xs =
     (if c = 0 \<or> xs = [] then []
      else ((if length xs \<le> c then FLAG_END else FLAG_CONTINUE) # take c xs)
             # framesOf c (drop c xs))"
  by pat_completeness auto
termination
  by (relation "measure (\<lambda>(c, xs). length xs)") auto

declare framesOf.simps [simp del]

section \<open>Rotation scheduler: \<open>ViewManager\<close> (src/services/viewManager.js)\<close>

type_synonym view_id = string
type_synonym channel = string
type_synonym timestamp = int
type_synonym timer = nat

text \<open>
  What the scheduler reads from outside itself at the moment of a call:
  \<^item> \<open>getChannelViews\<close>: \<open>channelConfig.getChannelViews\<close> (src/services/channelConfig.js),
    the \<open>views\<close> list of the channel's entry in the loaded configuration, in its
    configured order, and \<open>[]\<close> for a channel without an entry; the scheduler's calls
    here do not write the configuration;
  \<^item> \<open>clock\<close>: the \<open>new Date()\<close> that \<open>isViewScheduled\<close> takes by default (one call of
    the scheduler runs within one reading of the clock);
  \<^item> \<open>dateNow\<close>: \<open>Date.now()\<close>;
  \<^item> \<open>parseRotateAt\<close>: the delay \<open>parseRotateAt\<close> resolves a \<open>rotateAt\<close> string to against
    the wall clock (local time of day, or a relative duration), \<open>None\<close> for \<open>null\<close>; the
    theorems hold whatever delay it resolves to, only its sign is read;
  \<^item> \<open>getGalleryImages\<close>: the number of images \<open>getGalleryImages\<close> returns for a view,
    \<open>None\<close> when the lookup raises.
\<close>

record env =
  getChannelViews :: "channel \<Rightarrow> view_id list"
  clock :: date
  dateNow :: timestamp
  parseRotateAt :: "string \<Rightarrow> int option"
  getGalleryImages :: "view_id \<Rightarrow> nat option"

text \<open>The entry of \<open>channelRotations\<close>: the handle of the last timer armed and its delay.\<close>

record rotation =
  rot_timeout :: timer
  rot_delay :: int

text \<open>
  A pending \<open>setTimeout\<close>: its handle, the \<open>viewId\<close> and \<open>channel\<close> its callback closes
  over, and its delay.
\<close>

record timeout =
  t_handle :: timer
  t_view :: view_id
  t_channel :: channel
  t_delay :: int

text \<open>
  The fields of \<open>ViewManager\<close>, and what its calls leave behind: the pending timers, the
  events handed to \<open>publish\<close> (channel and view, in order; the data injected into the view
  before publishing is not modelled), and the channels for which \<open>broadcastViewChange\<close>
  calls \<open>nextView\<close> after finding an empty gallery (that call runs after an \<open>await\<close>, so
  after the caller has returned). The inner \<open>Map\<close> of \<open>manualOverrides\<close> is a list of
  pairs in insertion order, so that its \<open>size\<close> can be read.
\<close>

record vm_state =
  currentView :: "view_id option"
  channelCurrentViews :: "channel \<rightharpoonup> view_id"
  viewActivationTime :: "channel \<rightharpoonup> (view_id \<rightharpoonup> timestamp)"
  views :: "view_id \<rightharpoonup> view"
  channelRotations :: "channel \<rightharpoonup> rotation"
  manualOverrides :: "channel \<rightharpoonup> (view_id \<times> timestamp) list"
  timers :: "timeout list"
  nextTimer :: timer
  published :: "(channel \<times> view) list"
  deferredNext :: "channel list"

datatype error =
    ViewDoesNotExist view_id
  | NotConfiguredForChannel view_id channel
  | TypeError

text \<open>\<open>overrideInfo && overrideInfo.has(viewId)\<close>\<close>

definition isManuallyOverridden :: "vm_state \<Rightarrow> channel \<Rightarrow> view_id \<Rightarrow> bool" where
  "isManuallyOverridden st channel viewId =
     (case manualOverrides st channel of
        None \<Rightarrow> False
      | Some overrideInfo \<Rightarrow> viewId \<in> fst ` set overrideInfo)"

text \<open>
  \<open>channelViews.filter(id => this.views.has(id)).filter(id => isViewScheduled(this.views.get(id)))\<close>
\<close>

definition scheduledViews :: "env \<Rightarrow> vm_state \<Rightarrow> channel \<Rightarrow> view_id list" where
  "scheduledViews e st channel =
     filter (\<lambda>vid. case views st vid of None \<Rightarrow> False | Some v \<Rightarrow> isViewScheduled v (clock e))
       (filter (\<lambda>vid. views st vid \<noteq> None) (getChannelViews e channel))"

text \<open>
  \<open>getCurrentView(channel)\<close>. A channel argument that is \<open>null\<close> or the empty string is
  falsy and takes the legacy branch; both are the empty string here. The result is the
  view returned (\<open>None\<close> for \<open>null\<close>) and the state after the call.
\<close>

definition getCurrentView :: "env \<Rightarrow> vm_state \<Rightarrow> channel \<Rightarrow> view option \<times> vm_state" where
  "getCurrentView e st channel =
     (if channel \<noteq> [] then
        (let channelViews = getChannelViews e channel;
             fallback =
               (case scheduledViews e st channel of
                  [] \<Rightarrow> (None, st)
                | first # _ \<Rightarrow>
                    (case views st first of
                       None \<Rightarrow> (None, st)
                     | Some firstView \<Rightarrow>
                         (Some firstView,
                          st\<lparr>channelCurrentViews := (channelCurrentViews st)(channel \<mapsto> first)\<rparr>)))
         in case channelCurrentViews st channel of
              None \<Rightarrow> fallback
            | Some viewId \<Rightarrow>
                if viewId \<noteq> [] \<and> views st viewId \<noteq> None \<and> viewId \<in> set channelViews then
                  (case views st viewId of
                     None \<Rightarrow> (None, st)
                   | Some view \<Rightarrow>
                       if isManuallyOverridden st channel viewId then (Some view, st)
                       else if \<not> isViewScheduled view (clock e) then fallback
                       else (Some view, st))
                else fallback)
      else
        (case currentView st of
           None \<Rightarrow> (None, st)
         | Some cv \<Rightarrow> if cv = [] then (None, st) else (views st cv, st)))"

text \<open>\<open>view && view.metadata && view.metadata.type === 'gallery'\<close>\<close>

definition isGallery :: "view \<Rightarrow> bool" where
  "isGallery v = (case metadata v of None \<Rightarrow> False | Some md \<Rightarrow> mtype md = ''gallery'')"

text \<open>
  \<open>broadcastViewChange(channel)\<close>: the call of \<open>getCurrentView\<close> runs at once; what follows
  it is recorded in the state: an empty gallery is not published and \<open>nextView\<close> is called
  for the channel; a gallery whose image lookup raises rejects the call; any other view is
  handed to \<open>publish\<close> as a \<open>view_change\<close> event (errors of the injection and of
  \<open>publish\<close> itself are caught and logged).
\<close>

definition broadcastViewChange :: "env \<Rightarrow> vm_state \<Rightarrow> channel \<Rightarrow> vm_state" where
  "broadcastViewChange e st channel =
     (let targetChannel = (if channel \<noteq> [] then channel else ''kiosk'') in
      case getCurrentView e st targetChannel of
        (None, st1) \<Rightarrow> st1
      | (Some v, st1) \<Rightarrow>
          if isGallery v then
            (case getGalleryImages e (view_id v) of
               None \<Rightarrow> st1
             | Some n \<Rightarrow>
                 if n = 0 then st1\<lparr>deferredNext := deferredNext st1 @ [targetChannel]\<rparr>
                 else st1\<lparr>published := published st1 @ [(targetChannel, v)]\<rparr>)
          else st1\<lparr>published := published st1 @ [(targetChannel, v)]\<rparr>)"

definition clearTimeout :: "vm_state \<Rightarrow> timer \<Rightarrow> vm_state" where
  "clearTimeout st h = st\<lparr>timers := filter (\<lambda>t. t_handle t \<noteq> h) (timers st)\<rparr>"

text \<open>
  The delay of a view: \<open>rotateAfter\<close> when it is defined, else \<open>parseRotateAt(rotateAt)\<close>
  when \<open>rotateAt\<close> is truthy, else \<open>null\<close>.
\<close>

definition viewDelay :: "env \<Rightarrow> metadata \<Rightarrow> int option" where
  "viewDelay e md =
     (case rotateAfter md of
        Some d \<Rightarrow> Some d
      | None \<Rightarrow>
          (case rotateAt md of
             None \<Rightarrow> None
           | Some s \<Rightarrow> if s \<noteq> [] then parseRotateAt e s else None))"

text \<open>
  \<open>scheduleViewRotation(viewId, channel)\<close>: returns at once for a view that is missing or
  has no metadata; else clears the timer recorded for the channel, and arms a new one when
  the delay is positive and more than one member view exists and is scheduled now.
\<close>

definition scheduleViewRotation :: "env \<Rightarrow> vm_state \<Rightarrow> view_id \<Rightarrow> channel \<Rightarrow> vm_state" where
  "scheduleViewRotation e st viewId channel =
     (case views st viewId of
        None \<Rightarrow> st
      | Some view \<Rightarrow>
          (case metadata view of
             None \<Rightarrow> st
           | Some md \<Rightarrow>
               (let rotation = channelRotations st channel;
                    st1 = (case rotation of
                             None \<Rightarrow> st
                           | Some r \<Rightarrow> clearTimeout st (rot_timeout r))
                in case viewDelay e md of
                     None \<Rightarrow> st1
                   | Some delay \<Rightarrow>
                       if delay > 0 then
                         (if length (scheduledViews e st1 channel) \<le> 1 then st1
                          else
                            (let h = nextTimer st1;
                                 st2 = st1\<lparr>timers := timers st1 @
                                           [\<lparr>t_handle = h, t_view = viewId, t_channel = channel,
                                             t_delay = delay\<rparr>],
                                         nextTimer := Suc h\<rparr>
                             in st2\<lparr>channelRotations := (channelRotations st2)
                                       (channel \<mapsto> \<lparr>rot_timeout = h, rot_delay = delay\<rparr>)\<rparr>))
                       else st1)))"

text \<open>\<open>overrideInfo.set(id, Date.now())\<close> and \<open>overrideInfo.delete(viewId)\<close> on the inner map.\<close>

definition mapSet :: "view_id \<Rightarrow> timestamp \<Rightarrow> (view_id \<times> timestamp) list \<Rightarrow> (view_id \<times> timestamp) list" where
  "mapSet k v m =
     (if k \<in> fst ` set m then map (\<lambda>p. if fst p = k then (k, v) else p) m else m @ [(k, v)])"

definition mapDelete :: "view_id \<Rightarrow> (view_id \<times> timestamp) list \<Rightarrow> (view_id \<times> timestamp) list" where
  "mapDelete k m = filter (\<lambda>p. fst p \<noteq> k) m"

text \<open>
  \<open>setCurrentView(id, channel, isManualTrigger)\<close>. The result is the error raised, if any,
  and the state after the call.
\<close>

definition setCurrentView ::
  "env \<Rightarrow> vm_state \<Rightarrow> view_id \<Rightarrow> channel \<Rightarrow> bool \<Rightarrow> error option \<times> vm_state" where
  "setCurrentView e st vid channel isManualTrigger =
     (if views st vid = None then (Some (ViewDoesNotExist vid), st)
      else if channel \<noteq> [] then
        (if vid \<notin> set (getChannelViews e channel) then
           (Some (NotConfiguredForChannel vid channel), st)
         else
           (let times = (case viewActivationTime st channel of None \<Rightarrow> Map.empty | Some m \<Rightarrow> m);
                st1 = st\<lparr>viewActivationTime :=
                          (viewActivationTime st)(channel \<mapsto> times(vid \<mapsto> dateNow e))\<rparr>;
                st2 = (if isManualTrigger then
                         (let info = (case manualOverrides st1 channel of None \<Rightarrow> [] | Some m \<Rightarrow> m)
                          in st1\<lparr>manualOverrides :=
                                   (manualOverrides st1)(channel \<mapsto> mapSet vid (dateNow e) info)\<rparr>)
                       else st1);
                st3 = st2\<lparr>channelCurrentViews := (channelCurrentViews st2)(channel \<mapsto> vid)\<rparr>;
                st4 = broadcastViewChange e st3 channel
            in (None, scheduleViewRotation e st4 vid channel)))
      else (None, broadcastViewChange e (st\<lparr>currentView := Some vid\<rparr>) []))"

text \<open>
  Clearing the override of a view in the rotation callback: delete it from the channel's
  inner map, and delete the channel's entry when the inner map is left empty.
\<close>

definition clearOverride :: "vm_state \<Rightarrow> channel \<Rightarrow> view_id \<Rightarrow> vm_state" where
  "clearOverride st channel viewId =
     (case manualOverrides st channel of
        None \<Rightarrow> st
      | Some overrideInfo \<Rightarrow>
          (let info = mapDelete viewId overrideInfo in
           if info = [] then st\<lparr>manualOverrides := (manualOverrides st)(channel := None)\<rparr>
           else st\<lparr>manualOverrides := (manualOverrides st)(channel \<mapsto> info)\<rparr>))"

text \<open>\<open>Array.prototype.indexOf\<close>: the first index of the element, or -1.\<close>

fun indexOf :: "'a list \<Rightarrow> 'a \<Rightarrow> int" where
  "indexOf [] x = - 1"
| "indexOf (y # ys) x =
     (if x = y then 0 else (let i = indexOf ys x in if i < 0 then - 1 else i + 1))"

text \<open>A gallery view whose image list is empty; a lookup that raises is caught and does not skip.\<close>

definition emptyGallery :: "env \<Rightarrow> vm_state \<Rightarrow> view_id \<Rightarrow> bool" where
  "emptyGallery e st nextViewId =
     (case views st nextViewId of
        None \<Rightarrow> False
      | Some nextView \<Rightarrow> isGallery nextView \<and> getGalleryImages e nextViewId = Some 0)"

text \<open>
  The \<open>while (attempts < currentExistingViews.length)\<close> loop of the rotation callback, with
  the attempts left as the counter: the index of the first view from \<open>nextIndex\<close> on
  (wrapping) that is not an empty gallery, or \<open>None\<close> when every attempt met one.
\<close>

fun skipEmptyGalleries :: "env \<Rightarrow> vm_state \<Rightarrow> view_id list \<Rightarrow> nat \<Rightarrow> nat \<Rightarrow> nat option" where
  "skipEmptyGalleries e st vs 0 nextIndex = None"
| "skipEmptyGalleries e st vs (Suc attemptsLeft) nextIndex =
     (if emptyGallery e st (vs ! nextIndex)
      then skipEmptyGalleries e st vs attemptsLeft ((nextIndex + 1) mod length vs)
      else Some nextIndex)"

text \<open>
  The rotation step of the callback, after the override check. \<open>hadOverrideInfo\<close> says
  that the channel had an inner override map when the callback started. An error of
  \<open>setCurrentView\<close> is caught and logged.
\<close>

definition rotate :: "env \<Rightarrow> vm_state \<Rightarrow> view_id \<Rightarrow> channel \<Rightarrow> bool \<Rightarrow> vm_state" where
  "rotate e st viewId channel hadOverrideInfo =
     (let currentExistingViews = scheduledViews e st channel in
      if currentExistingViews = [] then st
      else
        (let currentIndex = indexOf currentExistingViews viewId;
             nextIndex = nat ((currentIndex + 1) mod int (length currentExistingViews))
         in case skipEmptyGalleries e st currentExistingViews
                   (length currentExistingViews) nextIndex of
              None \<Rightarrow> st
            | Some i \<Rightarrow>
                (let st1 = (if hadOverrideInfo then clearOverride st channel viewId else st)
                 in snd (setCurrentView e st1 (currentExistingViews ! i) channel False))))"

text \<open>
  The callback of the timer armed for \<open>viewId\<close> on \<open>channel\<close>, run as one step. An
  overridden view that is no longer in \<open>views\<close> makes \<open>isViewScheduled(undefined)\<close> raise
  a \<open>TypeError\<close>, which rejects the callback.
\<close>

definition rotationCallback ::
  "env \<Rightarrow> vm_state \<Rightarrow> view_id \<Rightarrow> channel \<Rightarrow> error option \<times> vm_state" where
  "rotationCallback e st viewId channel =
     (if channelCurrentViews st channel = Some viewId then
        (let hadOverrideInfo = (manualOverrides st channel \<noteq> None) in
         if isManuallyOverridden st channel viewId then
           (case views st viewId of
              None \<Rightarrow> (Some TypeError, st)
            | Some view \<Rightarrow>
                if isViewScheduled view (clock e) then
                  (None, scheduleViewRotation e st viewId channel)
                else (None, rotate e (clearOverride st channel viewId) viewId channel
                               hadOverrideInfo))
         else (None, rotate e st viewId channel hadOverrideInfo))
      else (None, st))"

text \<open>A pending timer fires: it is pending no more, and its callback runs.\<close>

definition fireTimer :: "env \<Rightarrow> vm_state \<Rightarrow> timer \<Rightarrow> error option \<times> vm_state" where
  "fireTimer e st h =
     (case find (\<lambda>t. t_handle t = h) (timers st) of
        None \<Rightarrow> (None, st)
      | Some t \<Rightarrow> rotationCallback e (clearTimeout st h) (t_view t) (t_channel t))"

subsection \<open>The selection rule as the specification words it\<close>

text \<open>A view id that names an existing view which the schedule evaluator accepts now.\<close>

definition eligibleNow :: "env \<Rightarrow> vm_state \<Rightarrow> view_id \<Rightarrow> bool" where
  "eligibleNow e st vid =
     (case views st vid of None \<Rightarrow> False | Some v \<Rightarrow> isViewScheduled v (clock e))"

text \<open>The first view in the channel's configured order that exists and is eligible now.\<close>

definition firstEligible :: "env \<Rightarrow> vm_state \<Rightarrow> channel \<Rightarrow> view_id option" where
  "firstEligible e st channel = find (eligibleNow e st) (getChannelViews e channel)"

text \<open>The current view is set, exists and is a member of the channel.\<close>

definition validCurrent :: "env \<Rightarrow> vm_state \<Rightarrow> channel \<Rightarrow> view_id \<Rightarrow> bool" where
  "validCurrent e st channel viewId =
     (channelCurrentViews st channel = Some viewId \<and> viewId \<noteq> [] \<and> views st viewId \<noteq> None
      \<and> viewId \<in> set (getChannelViews e channel))"

text \<open>
  \<open>getCurrentView\<close> falls through to re-selection: no valid current view, or a valid one
  that is neither overridden nor eligible now.
\<close>

definition fallsThrough :: "env \<Rightarrow> vm_state \<Rightarrow> channel \<Rightarrow> bool" where
  "fallsThrough e st channel =
     (case channelCurrentViews st channel of
        None \<Rightarrow> True
      | Some viewId \<Rightarrow>
          \<not> validCurrent e st channel viewId
          \<or> (\<not> isManuallyOverridden st channel viewId \<and> \<not> eligibleNow e st viewId))"

text \<open>A timer is pending for the view on the channel.\<close>

definition armedFor :: "vm_state \<Rightarrow> view_id \<Rightarrow> channel \<Rightarrow> bool" where
  "armedFor st viewId channel =
     list_ex (\<lambda>t. t_view t = viewId \<and> t_channel t = channel) (timers st)"

text \<open>The condition under which \<open>scheduleViewRotation\<close> arms a timer.\<close>

definition armable :: "env \<Rightarrow> vm_state \<Rightarrow> view_id \<Rightarrow> channel \<Rightarrow> bool" where
  "armable e st viewId channel =
     (case views st viewId of
        None \<Rightarrow> False
      | Some view \<Rightarrow>
          (case metadata view of
             None \<Rightarrow> False
           | Some md \<Rightarrow>
               (case viewDelay e md of None \<Rightarrow> False | Some d \<Rightarrow> d > 0)
               \<and> length (scheduledViews e st channel) > 1))"

subsection \<open>What the scheduler's calls amount to, named for the theorems\<close>

text \<open>The re-selection branch.\<close>

definition reselect :: "env \<Rightarrow> vm_state \<Rightarrow> channel \<Rightarrow> view option \<times> vm_state" where
  "reselect e st channel =
     (case firstEligible e st channel of
        None \<Rightarrow> (None, st)
      | Some first \<Rightarrow>
          (views st first, st\<lparr>channelCurrentViews := (channelCurrentViews st)(channel \<mapsto> first)\<rparr>))"

text \<open>
  The view is handed to \<open>publish\<close>: it is no gallery, or a gallery whose image lookup
  returns at least one image.
\<close>

definition willPublish :: "env \<Rightarrow> view \<Rightarrow> bool" where
  "willPublish e v =
     (\<not> isGallery v \<or> (case getGalleryImages e (view_id v) of None \<Rightarrow> False | Some n \<Rightarrow> n > 0))"

text \<open>The timers left pending once the timer recorded for the channel is cleared.\<close>

definition afterClear :: "vm_state \<Rightarrow> channel \<Rightarrow> timeout list" where
  "afterClear st channel =
     (case channelRotations st channel of
        None \<Rightarrow> timers st
      | Some r \<Rightarrow> filter (\<lambda>t. t_handle t \<noteq> rot_timeout r) (timers st))"

text \<open>The view id \<open>getCurrentView\<close> settles on.\<close>

definition shownId :: "env \<Rightarrow> vm_state \<Rightarrow> channel \<Rightarrow> view_id option" where
  "shownId e st channel =
     (if fallsThrough e st channel then firstEligible e st channel
      else channelCurrentViews st channel)"

text \<open>The events \<open>broadcastViewChange\<close> publishes when \<open>getCurrentView\<close> settles on \<open>shown\<close>.\<close>

definition eventsFor :: "env \<Rightarrow> vm_state \<Rightarrow> channel \<Rightarrow> view_id option \<Rightarrow> (channel \<times> view) list" where
  "eventsFor e st channel shown =
     (case shown of
        None \<Rightarrow> []
      | Some s \<Rightarrow>
          (case views st s of
             None \<Rightarrow> []
           | Some v \<Rightarrow> if willPublish e v then [(channel, v)] else []))"

text \<open>
  The view id shown once \<open>setCurrentView\<close> has set the pointer to \<open>vid\<close>: \<open>vid\<close> itself
  when it is a non-empty id that is overridden (now or from before) or eligible now; else
  the first eligible member view, if there is one.
\<close>

definition shownAfterSet :: "env \<Rightarrow> vm_state \<Rightarrow> view_id \<Rightarrow> channel \<Rightarrow> bool \<Rightarrow> view_id option" where
  "shownAfterSet e st vid channel manual =
     (if vid \<noteq> [] \<and> (manual \<or> isManuallyOverridden st channel vid \<or> eligibleNow e st vid)
      then Some vid
      else firstEligible e st channel)"

text \<open>The timer \<open>scheduleViewRotation\<close> arms for the view, when it arms one.\<close>

definition newTimer :: "env \<Rightarrow> vm_state \<Rightarrow> view_id \<Rightarrow> channel \<Rightarrow> timeout list" where
  "newTimer e st vid channel =
     (if armable e st vid channel
      then (case views st vid of
              None \<Rightarrow> []
            | Some view \<Rightarrow>
                (case metadata view of
                   None \<Rightarrow> []
                 | Some md \<Rightarrow>
                     (case viewDelay e md of
                        None \<Rightarrow> []
                      | Some d \<Rightarrow> [\<lparr>t_handle = nextTimer st, t_view = vid, t_channel = channel,
                                    t_delay = d\<rparr>])))
      else [])"

text \<open>The view exists and has metadata (\<open>scheduleViewRotation\<close> goes past its first line).\<close>

definition hasMetadata :: "vm_state \<Rightarrow> view_id \<Rightarrow> bool" where
  "hasMetadata st vid =
     (case views st vid of None \<Rightarrow> False | Some view \<Rightarrow> metadata view \<noteq> None)"

text \<open>The state \<open>setCurrentView\<close> hands to \<open>broadcastViewChange\<close>.\<close>

definition afterPointer :: "env \<Rightarrow> vm_state \<Rightarrow> view_id \<Rightarrow> channel \<Rightarrow> bool \<Rightarrow> vm_state" where
  "afterPointer e st vid channel manual =
     (let times = (case viewActivationTime st channel of None \<Rightarrow> Map.empty | Some m \<Rightarrow> m);
          st1 = st\<lparr>viewActivationTime :=
                    (viewActivationTime st)(channel \<mapsto> times(vid \<mapsto> dateNow e))\<rparr>;
          st2 = (if manual then
                   (let info = (case manualOverrides st1 channel of None \<Rightarrow> [] | Some m \<Rightarrow> m)
                    in st1\<lparr>manualOverrides :=
                             (manualOverrides st1)(channel \<mapsto> mapSet vid (dateNow e) info)\<rparr>)
                 else st1)
      in st2\<lparr>channelCurrentViews := (channelCurrentViews st2)(channel \<mapsto> vid)\<rparr>)"

text \<open>
  The view the rotation callback moves to when the fired view is not among the eligible
  ones: the first eligible member view, in configured order, that is not an empty gallery.
\<close>

definition rotationTarget :: "env \<Rightarrow> vm_state \<Rightarrow> channel \<Rightarrow> view_id option" where
  "rotationTarget e st channel =
     find (\<lambda>vid. \<not> emptyGallery e st vid) (scheduledViews e st channel)"

section \<open>Broadcast hub: \<open>ChannelManager\<close> (src/services/channelManager.js) and the bus client (redis.js)\<close>

text \<open>
  A sink is a response object \<open>res\<close>, known by its identity; an origin is the \<open>ip\<close> it
  subscribed with; a callback is the closure \<open>redisCallback(channel)\<close> made at a
  subscription, known by a number drawn from a counter.
\<close>

type_synonym res = nat
type_synonym ip = string
type_synonym callback = nat

text \<open>The value of \<open>clientMap\<close>: \<open>{ clientId, channel, ip }\<close>.\<close>

record client_info =
  clientId :: string
  info_channel :: channel
  info_ip :: ip

text \<open>A bus message: its \<open>type\<close> and its \<open>view\<close> payload, if any.\<close>

record message =
  msg_type :: string
  msg_view :: "view option"

text \<open>
  \<open>subscribeClient\<close> and \<open>unsubscribeClient\<close> are \<open>async\<close> functions with one \<open>await\<close>
  each. A call runs up to its \<open>await\<close> in the caller's turn; what follows the \<open>await\<close>
  runs in a later turn, after whatever else the event loop has run in between. A call
  waiting at its \<open>await\<close> is a task:
  \<^item> \<open>AwaitSubscribe channel res clientId ip callback waits\<close>: \<open>subscribeClient\<close> at
    \<open>await subscribe(channel, callback)\<close> (channelManager.js line 89); \<open>waits\<close> tells
    that \<open>subscribe\<close> itself waits at \<open>await subscriber.subscribe(channel)\<close> (redis.js),
    with its last line still to run;
  \<^item> \<open>AwaitUnsubscribe channel\<close>: \<open>unsubscribeClient\<close> at
    \<open>await unsubscribe(channel, callback)\<close> (line 150).
\<close>

datatype task =
    AwaitSubscribe channel res string ip callback bool
  | AwaitUnsubscribe channel

text \<open>
  What the hub's calls raise: the \<open>Error('Redis not initialized')\<close> of redis.js, and the
  \<open>TypeError\<close> of a method call on \<open>undefined\<close> or \<open>null\<close>.
\<close>

datatype hub_error = RedisNotInitialized | HubTypeError

text \<open>
  How far a call gets in the caller's turn: it returns, it throws (an \<open>async\<close> function
  rejects its promise), or it waits at its \<open>await\<close> as the task given.
\<close>

datatype outcome = Returns | Throws hub_error | Awaits task

text \<open>
  The variables of the two modules and what their calls leave outside them:
  \<^item> \<open>channels\<close>: channel to the \<open>Set\<close> of its sinks, in insertion order;
  \<^item> \<open>clientMap\<close>: sink to its client record;
  \<^item> \<open>ipConnections\<close>: origin to the \<open>Set\<close> of \<open>{ res, channel }\<close> objects, each a new
    object, so a list that may repeat;
  \<^item> \<open>redisCallbacks\<close>: channel to the callback subscribed for it;
  \<^item> \<open>nextCallback\<close>: the identity the next closure \<open>redisCallback(channel)\<close> gets;
  \<^item> \<open>subscriber\<close>: redis.js has its \<open>subscriber\<close> connection (it is \<open>null\<close> until
    \<open>initializeRedis\<close>);
  \<^item> \<open>channelCallbacks\<close>: redis.js' map from a topic to the \<open>Set\<close> of callbacks
    subscribed for it;
  \<^item> \<open>topics\<close>: the topics the \<open>subscriber\<close> connection is subscribed to at Redis, by the
    \<open>subscriber.subscribe\<close> and \<open>subscriber.unsubscribe\<close> commands sent so far, in order;
  \<^item> \<open>adapters\<close>: the sinks that are \<open>BleResponseAdapter\<close> objects; every other sink is
    an HTTP response;
  \<^item> \<open>destroyed\<close>: the sinks whose connection is closed (\<open>res.destroyed\<close>);
  \<^item> \<open>closeHooks\<close>: the \<open>'close'\<close> listeners registered by \<open>subscribeClient\<close>;
  \<^item> \<open>pending\<close>: the calls waiting at their \<open>await\<close>, oldest first;
  \<^item> \<open>written\<close>: what was written to which sink, in order.
\<close>

record hub_state =
  channels :: "channel \<rightharpoonup> res list"
  clientMap :: "res \<rightharpoonup> client_info"
  ipConnections :: "ip \<rightharpoonup> (res \<times> channel) list"
  redisCallbacks :: "channel \<rightharpoonup> callback"
  nextCallback :: callback
  subscriber :: bool
  channelCallbacks :: "channel \<rightharpoonup> callback list"
  topics :: "channel list"
  adapters :: "res set"
  destroyed :: "res set"
  closeHooks :: "(res \<times> channel) list"
  pending :: "task list"
  written :: "(res \<times> message) list"

text \<open>
  The state in which the server starts to take requests: the maps are empty and
  \<open>initializeRedis\<close> has run (server.js line 46), so \<open>subscriber\<close> is set.
\<close>

definition hub_init :: hub_state where
  "hub_init = \<lparr>channels = Map.empty, clientMap = Map.empty, ipConnections = Map.empty,
      redisCallbacks = Map.empty, nextCallback = 0, subscriber = True,
      channelCallbacks = Map.empty, topics = [], adapters = {}, destroyed = {},
      closeHooks = [], pending = [], written = []\<rparr>"

text \<open>\<open>Set.prototype.add\<close>: an element already present keeps its place.\<close>

definition setAdd :: "'a \<Rightarrow> 'a list \<Rightarrow> 'a list" where
  "setAdd x xs = (if x \<in> set xs then xs else xs @ [x])"

subsection \<open>redis.js (the third document of src/services/viewStorage.js, lines 200 to 269)\<close>

text \<open>
  \<open>subscribe(channel, callback)\<close>, lines 247 to 258, in the caller's turn. It throws when
  \<open>subscriber\<close> is \<open>null\<close>. For a topic without a callback set it makes the empty set,
  sends the subscribe command and waits for Redis (\<open>Inr True\<close>); the callback is added
  once Redis has answered. For a topic with a callback set it adds the callback and
  returns (\<open>Inr False\<close>).
\<close>

definition subscribe :: "hub_state \<Rightarrow> channel \<Rightarrow> callback \<Rightarrow> (hub_error + bool) \<times> hub_state" where
  "subscribe st channel cb =
     (if \<not> subscriber st then (Inl RedisNotInitialized, st)
      else (case channelCallbacks st channel of
              None \<Rightarrow>
                (Inr True, st\<lparr>channelCallbacks := (channelCallbacks st)(channel \<mapsto> []),
                              topics := setAdd channel (topics st)\<rparr>)
            | Some callbacks \<Rightarrow>
                (Inr False,
                 st\<lparr>channelCallbacks := (channelCallbacks st)(channel \<mapsto> setAdd cb callbacks)\<rparr>)))"

text \<open>
  What \<open>subscribe\<close> does once Redis has answered: \<open>channelCallbacks.get(channel).add(callback)\<close>
  (line 257), a \<open>TypeError\<close> when the topic's set has been deleted in between.
\<close>

definition subscribe_resume :: "hub_state \<Rightarrow> channel \<Rightarrow> callback \<Rightarrow> hub_error option \<times> hub_state" where
  "subscribe_resume st channel cb =
     (case channelCallbacks st channel of
        None \<Rightarrow> (Some HubTypeError, st)
      | Some callbacks \<Rightarrow>
          (None, st\<lparr>channelCallbacks := (channelCallbacks st)(channel \<mapsto> setAdd cb callbacks)\<rparr>))"

text \<open>
  \<open>unsubscribe(channel, callback)\<close>, lines 260 to 269, in the caller's turn: the callback
  leaves the topic's set; when the set is empty the topic's entry is deleted and the
  unsubscribe command is sent (a \<open>TypeError\<close> when \<open>subscriber\<close> is \<open>null\<close>). Nothing
  follows its \<open>await\<close>.
\<close>

definition unsubscribe :: "hub_state \<Rightarrow> channel \<Rightarrow> callback \<Rightarrow> hub_error option \<times> hub_state" where
  "unsubscribe st channel cb =
     (case channelCallbacks st channel of
        None \<Rightarrow> (None, st)
      | Some callbacks \<Rightarrow>
          (let left = removeAll cb callbacks
           in if left = [] then
                (let st1 = st\<lparr>channelCallbacks := (channelCallbacks st)(channel := None)\<rparr>
                 in if subscriber st
                    then (None, st1\<lparr>topics := removeAll channel (topics st1)\<rparr>)
                    else (Some HubTypeError, st1))
              else (None, st\<lparr>channelCallbacks := (channelCallbacks st)(channel \<mapsto> left)\<rparr>)))"

subsection \<open>channelManager.js\<close>

text \<open>The \<open>for\<close> loop with \<open>break\<close>: delete the first element that satisfies the test.\<close>

fun removeFirst :: "('a \<Rightarrow> bool) \<Rightarrow> 'a list \<Rightarrow> 'a list" where
  "removeFirst P [] = []"
| "removeFirst P (x # xs) = (if P x then xs else x # removeFirst P xs)"

text \<open>
  \<open>unsubscribeClient(channel, res)\<close>, lines 113 to 156, in the caller's turn: all of it
  when the channel has no sink set or another sink remains in it; else up to
  \<open>await unsubscribe(channel, callback)\<close> (line 150), where it waits (the bus call has
  run its own part), or throws what \<open>unsubscribe\<close> throws.
\<close>

definition unsubscribeClient_begin :: "hub_state \<Rightarrow> channel \<Rightarrow> res \<Rightarrow> outcome \<times> hub_state" where
  "unsubscribeClient_begin st channel res =
     (case channels st channel of
        None \<Rightarrow> (Returns, st)
      | Some clients \<Rightarrow>
          (let clientInfo = clientMap st res;
               remaining = removeAll res clients;
               st1 = st\<lparr>channels := (channels st)(channel \<mapsto> remaining)\<rparr>;
               st2 = (case clientInfo of
                        None \<Rightarrow> st1
                      | Some info \<Rightarrow>
                          if info_ip info \<noteq> [] then
                            (case ipConnections st1 (info_ip info) of
                               None \<Rightarrow> st1
                             | Some ipConns \<Rightarrow>
                                 (let left = removeFirst (\<lambda>connInfo. fst connInfo = res) ipConns
                                  in if left = []
                                     then st1\<lparr>ipConnections :=
                                                (ipConnections st1)(info_ip info := None)\<rparr>
                                     else st1\<lparr>ipConnections :=
                                                (ipConnections st1)(info_ip info \<mapsto> left)\<rparr>))
                          else st1);
               st3 = st2\<lparr>clientMap := (clientMap st2)(res := None)\<rparr>
           in if remaining = [] then
                (let st4 = st3\<lparr>channels := (channels st3)(channel := None)\<rparr>
                 in case redisCallbacks st4 channel of
                      None \<Rightarrow> (Returns, st4)
                    | Some cb \<Rightarrow>
                        (case unsubscribe st4 channel cb of
                           (Some err, st5) \<Rightarrow> (Throws err, st5)
                         | (None, st5) \<Rightarrow>
                             (Awaits (AwaitUnsubscribe channel),
                              st5\<lparr>pending := pending st5 @ [AwaitUnsubscribe channel]\<rparr>)))
              else (Returns, st3)))"

text \<open>
  What \<open>unsubscribeClient\<close> does after its \<open>await\<close>: \<open>this.redisCallbacks.delete(channel)\<close>
  (line 151).
\<close>

definition unsubscribeClient_resume :: "hub_state \<Rightarrow> channel \<Rightarrow> hub_state" where
  "unsubscribeClient_resume st channel = st\<lparr>redisCallbacks := (redisCallbacks st)(channel := None)\<rparr>"

text \<open>
  The \<open>'close'\<close> event of a sink: each listener of line 108 registered for it calls
  \<open>unsubscribeClient(channel, res)\<close> and drops the promise, so a call that waits stays in
  \<open>pending\<close> and a rejection goes nowhere.
\<close>

definition emitClose :: "hub_state \<Rightarrow> res \<Rightarrow> hub_state" where
  "emitClose st res =
     foldl (\<lambda>s hook. if fst hook = res then snd (unsubscribeClient_begin s (snd hook) res) else s)
       st (closeHooks st)"

text \<open>
  \<open>res.destroy()\<close>. A \<open>BleResponseAdapter\<close> (src/services/ble/BleResponseAdapter.js) that
  is not destroyed sets \<open>destroyed\<close> and emits \<open>'close'\<close> within the call; an HTTP response
  is marked destroyed and its \<open>'close'\<close> event comes in a later turn.
\<close>

definition destroy :: "hub_state \<Rightarrow> res \<Rightarrow> hub_state" where
  "destroy st res =
     (if res \<in> adapters st then
        (if res \<in> destroyed st then st
         else emitClose (st\<lparr>destroyed := insert res (destroyed st)\<rparr>) res)
      else st\<lparr>destroyed := insert res (destroyed st)\<rparr>)"

text \<open>
  The body of the eviction loop for one \<open>connInfo\<close> (lines 67 to 79): the connection is
  destroyed unless it already is, the sink leaves the set of \<open>connInfo.channel\<close> if that
  set exists, and its \<open>clientMap\<close> entry is deleted.
\<close>

definition evict :: "hub_state \<Rightarrow> res \<times> channel \<Rightarrow> hub_state" where
  "evict st connInfo =
     (let st1 = (if fst connInfo \<in> destroyed st then st else destroy st (fst connInfo))
      in st1\<lparr>channels := (case channels st1 (snd connInfo) of
                             None \<Rightarrow> channels st1
                           | Some channelClients \<Rightarrow>
                               (channels st1)(snd connInfo \<mapsto> removeAll (fst connInfo) channelClients)),
             clientMap := (clientMap st1)(fst connInfo := None)\<rparr>)"

text \<open>
  Lines 93 to 110 of \<open>subscribeClient\<close>: the sink joins the channel's set (a \<open>TypeError\<close>
  when the channel has none), gets its client record and its entry in the origin index,
  and the \<open>'close'\<close> listener is registered.
\<close>

definition register :: "hub_state \<Rightarrow> channel \<Rightarrow> res \<Rightarrow> string \<Rightarrow> ip \<Rightarrow> hub_error option \<times> hub_state" where
  "register st channel res cid ip =
     (case channels st channel of
        None \<Rightarrow> (Some HubTypeError, st)
      | Some clients \<Rightarrow>
          (let st3 = st\<lparr>channels := (channels st)(channel \<mapsto> setAdd res clients),
                        clientMap := (clientMap st)
                          (res \<mapsto> \<lparr>clientId = cid, info_channel = channel, info_ip = ip\<rparr>)\<rparr>;
               conns = (case ipConnections st3 ip of None \<Rightarrow> [] | Some cs \<Rightarrow> cs);
               st4 = st3\<lparr>ipConnections := (ipConnections st3)(ip \<mapsto> conns @ [(res, channel)])\<rparr>
           in (None, st4\<lparr>closeHooks := closeHooks st4 @ [(res, channel)]\<rparr>)))"

text \<open>
  \<open>subscribeClient(channel, res, clientId, ip)\<close>, lines 56 to 111, in the caller's turn.
  The eviction loop runs over the origin's \<open>Set\<close> as it is when the loop starts: a
  \<open>'close'\<close> listener run by a \<open>destroy\<close> deletes from that \<open>Set\<close> only an entry of the
  sink being destroyed, which is the entry visited or an earlier one. Then, for a channel
  that has a sink set, the call registers the sink and returns. For a channel without one
  it makes the empty set, records a new callback, calls \<open>subscribe\<close> and waits at line 89
  with the registration still to run, or throws what \<open>subscribe\<close> throws.
\<close>

definition subscribeClient_begin ::
  "hub_state \<Rightarrow> channel \<Rightarrow> res \<Rightarrow> string \<Rightarrow> ip \<Rightarrow> outcome \<times> hub_state" where
  "subscribeClient_begin st channel res cid ip =
     (let st1 = (case ipConnections st ip of
                   None \<Rightarrow> st
                 | Some existingConnections \<Rightarrow>
                     (let st0 = foldl evict st existingConnections
                      in st0\<lparr>ipConnections := (ipConnections st0)(ip := None)\<rparr>))
      in if channels st1 channel = None then
           (let cb = nextCallback st1;
                st2 = st1\<lparr>channels := (channels st1)(channel \<mapsto> []),
                          redisCallbacks := (redisCallbacks st1)(channel \<mapsto> cb),
                          nextCallback := Suc cb\<rparr>
            in case subscribe st2 channel cb of
                 (Inl err, st3) \<Rightarrow> (Throws err, st3)
               | (Inr waits, st3) \<Rightarrow>
                   (Awaits (AwaitSubscribe channel res cid ip cb waits),
                    st3\<lparr>pending := pending st3 @ [AwaitSubscribe channel res cid ip cb waits]\<rparr>))
         else (case register st1 channel res cid ip of
                 (None, st2) \<Rightarrow> (Returns, st2)
               | (Some err, st2) \<Rightarrow> (Throws err, st2)))"

text \<open>
  What \<open>subscribeClient\<close> does after its \<open>await\<close>: \<open>subscribe\<close> runs its last line when it
  was waiting for Redis, and the registration of lines 93 to 110 follows; either may
  throw.
\<close>

definition subscribeClient_resume ::
  "hub_state \<Rightarrow> channel \<Rightarrow> res \<Rightarrow> string \<Rightarrow> ip \<Rightarrow> callback \<Rightarrow> bool \<Rightarrow> hub_error option \<times> hub_state" where
  "subscribeClient_resume st channel res cid ip cb waits =
     (if waits then
        (case subscribe_resume st channel cb of
           (Some err, st1) \<Rightarrow> (Some err, st1)
         | (None, st1) \<Rightarrow> register st1 channel res cid ip)
      else register st channel res cid ip)"

text \<open>A waiting call runs on: it leaves \<open>pending\<close> and does what follows its \<open>await\<close>.\<close>

fun resume :: "hub_state \<Rightarrow> task \<Rightarrow> hub_error option \<times> hub_state" where
  "resume st (AwaitSubscribe channel res cid ip cb waits) =
     subscribeClient_resume
       (st\<lparr>pending := remove1 (AwaitSubscribe channel res cid ip cb waits) (pending st)\<rparr>)
       channel res cid ip cb waits"
| "resume st (AwaitUnsubscribe channel) =
     (None, unsubscribeClient_resume
              (st\<lparr>pending := remove1 (AwaitUnsubscribe channel) (pending st)\<rparr>) channel)"

text \<open>
  A call from its start to its end when nothing else runs while it waits: the state it
  leaves, also when it throws.
\<close>

definition subscribeClient :: "hub_state \<Rightarrow> channel \<Rightarrow> res \<Rightarrow> string \<Rightarrow> ip \<Rightarrow> hub_state" where
  "subscribeClient st channel res cid ip =
     (case subscribeClient_begin st channel res cid ip of
        (Awaits t, st1) \<Rightarrow> snd (resume st1 t)
      | (Returns, st1) \<Rightarrow> st1
      | (Throws err, st1) \<Rightarrow> st1)"

definition unsubscribeClient :: "hub_state \<Rightarrow> channel \<Rightarrow> res \<Rightarrow> hub_state" where
  "unsubscribeClient st channel res =
     (case unsubscribeClient_begin st channel res of
        (Awaits t, st1) \<Rightarrow> snd (resume st1 t)
      | (Returns, st1) \<Rightarrow> st1
      | (Throws err, st1) \<Rightarrow> st1)"

text \<open>
  The rewriting of a view message before the fan-out. \<open>rewriteImageUrls\<close>
  (src/utils/imageProxy.js) returns a copy of the view with the \<open>url\<close> of an image view's
  \<open>data\<close> replaced; the view record here does not carry \<open>data\<close>, so the function is a
  parameter.
\<close>

definition processMessage :: "(view \<Rightarrow> view) \<Rightarrow> message \<Rightarrow> message" where
  "processMessage rewriteImageUrls m =
     (if msg_type m = ''initial_view'' \<or> msg_type m = ''view_change'' then
        (case msg_view m of
           None \<Rightarrow> m
         | Some v \<Rightarrow> m\<lparr>msg_view := Some (rewriteImageUrls v)\<rparr>)
      else m)"

text \<open>
  The body of \<open>clients.forEach\<close> for one sink: the write, or when it raises
  (\<open>writeFails\<close>), the \<open>catch\<close> block.
\<close>

definition deliver :: "(res \<Rightarrow> bool) \<Rightarrow> channel \<Rightarrow> message \<Rightarrow> hub_state \<Rightarrow> res \<Rightarrow> hub_state" where
  "deliver writeFails channel m st res =
     (if writeFails res then
        st\<lparr>channels := (case channels st channel of
                          None \<Rightarrow> channels st
                        | Some clients \<Rightarrow> (channels st)(channel \<mapsto> removeAll res clients)),
           clientMap := (clientMap st)(res := None)\<rparr>
      else st\<lparr>written := written st @ [(res, m)]\<rparr>)"

text \<open>
  \<open>redisCallback(channel)(message)\<close>: the fan-out of one bus message to the sinks of the
  channel, in the order of the set.
\<close>

definition redisCallback ::
  "(view \<Rightarrow> view) \<Rightarrow> (res \<Rightarrow> bool) \<Rightarrow> hub_state \<Rightarrow> channel \<Rightarrow> message \<Rightarrow> hub_state" where
  "redisCallback rewriteImageUrls writeFails st channel m =
     (case channels st channel of
        None \<Rightarrow> st
      | Some clients \<Rightarrow>
          foldl (deliver writeFails channel (processMessage rewriteImageUrls m)) st clients)"

subsection \<open>What the theorems read off a hub state\<close>

text \<open>The sinks registered for an origin in the origin index.\<close>

definition originSinks :: "hub_state \<Rightarrow> ip \<Rightarrow> (res \<times> channel) list" where
  "originSinks st ip = (case ipConnections st ip of None \<Rightarrow> [] | Some conns \<Rightarrow> conns)"

text \<open>A sink is in the sink set of a channel.\<close>

definition sinkOf :: "hub_state \<Rightarrow> channel \<Rightarrow> res \<Rightarrow> bool" where
  "sinkOf st c r = (case channels st c of None \<Rightarrow> False | Some clients \<Rightarrow> r \<in> set clients)"

section \<open>Example inputs\<close>




text \<open>
  A lobby channel with two member views in the order \<open>office\<close>, \<open>notice\<close>: \<open>office\<close>
  is scheduled from 09:00 to 17:00, \<open>notice\<close> has no schedule; both rotate after a
  minute. The environment reads the clock it is given.
\<close>

definition ex_notice_view :: view where
  "ex_notice_view = \<lparr>view_id = ''notice'',
      metadata = Some \<lparr>mtype = ''text'', rotateAfter = Some 60000, rotateAt = None,
        schedule = None\<rparr>\<rparr>"

definition ex_office_view :: view where
  "ex_office_view = \<lparr>view_id = ''office'',
      metadata = Some \<lparr>mtype = ''text'', rotateAfter = Some 60000, rotateAt = None,
        schedule = Some \<lparr>days = None,
          hours = Some (OneRange \<lparr>range_from = Some ''09:00'', range_to = Some ''17:00''\<rparr>)\<rparr>\<rparr>\<rparr>"

definition ex_views :: "view_id \<rightharpoonup> view" where
  "ex_views = [''notice'' \<mapsto> ex_notice_view, ''office'' \<mapsto> ex_office_view]"

definition ex_env :: "date \<Rightarrow> env" where
  "ex_env now = \<lparr>getChannelViews = (\<lambda>c. if c = ''lobby'' then [''office'', ''notice''] else []),
      clock = now, dateNow = 1000, parseRotateAt = (\<lambda>s. None),
      getGalleryImages = (\<lambda>v. Some 0)\<rparr>"

definition ex_afternoon :: date where
  "ex_afternoon = \<lparr>getDay = 1, getHours = 16, getMinutes = 59\<rparr>"

definition ex_evening :: date where
  "ex_evening = \<lparr>getDay = 1, getHours = 17, getMinutes = 1\<rparr>"

definition ex_vm :: vm_state where
  "ex_vm = \<lparr>currentView = None, channelCurrentViews = Map.empty, viewActivationTime = Map.empty,
      views = ex_views, channelRotations = Map.empty, manualOverrides = Map.empty,
      timers = [], nextTimer = 0, published = [], deferredNext = []\<rparr>"

definition ex_vm_office :: vm_state where
  "ex_vm_office = ex_vm\<lparr>channelCurrentViews := [''lobby'' \<mapsto> ''office'']\<rparr>"

text \<open>The state after \<open>notice\<close> was set by hand in the afternoon.\<close>

definition ex_vm_manual :: vm_state where
  "ex_vm_manual = snd (setCurrentView (ex_env ex_afternoon) ex_vm ''notice'' ''lobby'' True)"

text \<open>
  Hub states, all sinks HTTP responses. Sink 1 subscribes to channel \<open>X\<close> from origin
  10.0.0.1; then either sink 2 subscribes to channel \<open>Y\<close> from the same origin (which
  evicts sink 1), or sink 2 subscribes to \<open>X\<close> from another origin. Each call runs to its
  end before the next starts.
\<close>

definition ex_hub1 :: hub_state where
  "ex_hub1 = subscribeClient hub_init ''X'' 1 ''tablet-a'' ''10.0.0.1''"

definition ex_hub2 :: hub_state where
  "ex_hub2 = subscribeClient ex_hub1 ''Y'' 2 ''tablet-b'' ''10.0.0.1''"

definition ex_hub_pair :: hub_state where
  "ex_hub_pair = subscribeClient ex_hub1 ''X'' 2 ''tablet-b'' ''10.0.0.2''"

definition ex_message :: message where
  "ex_message = \<lparr>msg_type = ''notice'', msg_view = None\<rparr>"

text \<open>
  Two requests of one origin for a channel nobody watches yet. The call for sink 1 waits
  at its \<open>await\<close> for Redis; the request for sink 2 arrives and its call runs to its end
  (the channel has a sink set by now, so it does not wait); then Redis answers and the
  call for sink 1 runs on.
\<close>

definition ex_first_waits :: "outcome \<times> hub_state" where
  "ex_first_waits = subscribeClient_begin hub_init ''X'' 1 ''tablet-a'' ''10.0.0.1''"

definition ex_second_done :: "outcome \<times> hub_state" where
  "ex_second_done = subscribeClient_begin (snd ex_first_waits) ''X'' 2 ''tablet-b'' ''10.0.0.1''"

definition ex_first_done :: "hub_error option \<times> hub_state" where
  "ex_first_done =
     resume (snd ex_second_done) (AwaitSubscribe ''X'' 1 ''tablet-a'' ''10.0.0.1'' 0 True)"

text \<open>
  A reconnect. Sink 1 is the only sink of \<open>X\<close>; its connection closes and
  \<open>unsubscribeClient\<close> waits at its \<open>await\<close> for Redis; the same display connects again
  as sink 2 and \<open>subscribeClient\<close> waits at its \<open>await\<close>; Redis answers the two commands
  in the order they were sent and the two calls run on. Later the connection of sink 2
  closes as well.
\<close>

definition ex_closing :: "outcome \<times> hub_state" where
  "ex_closing = unsubscribeClient_begin ex_hub1 ''X'' 1"

definition ex_reconnecting :: "outcome \<times> hub_state" where
  "ex_reconnecting = subscribeClient_begin (snd ex_closing) ''X'' 2 ''tablet-a'' ''10.0.0.1''"

definition ex_closed :: "hub_error option \<times> hub_state" where
  "ex_closed = resume (snd ex_reconnecting) (AwaitUnsubscribe ''X'')"

definition ex_reconnected :: "hub_error option \<times> hub_state" where
  "ex_reconnected =
     resume (snd ex_closed) (AwaitSubscribe ''X'' 2 ''tablet-a'' ''10.0.0.1'' 1 True)"

definition ex_leak :: hub_state where
  "ex_leak = unsubscribeClient (snd ex_reconnected) ''X'' 2"

text \<open>After that, sink 3 subscribes to \<open>X\<close> from another origin, and unsubscribes.\<close>

definition ex_leak_watched :: hub_state where
  "ex_leak_watched = subscribeClient ex_leak ''X'' 3 ''tablet-c'' ''10.0.0.3''"

definition ex_leak_left :: hub_state where
  "ex_leak_left = unsubscribeClient ex_leak_watched ''X'' 3"

text \<open>
  Sinks that are \<open>BleResponseAdapter\<close> objects, with the origin \<open>'BLE'\<close> the BLE service
  gives them (src/services/ble/BleService.js): adapter 1 watches \<open>X\<close>, and adapter 2
  subscribes to \<open>Y\<close> while adapter 1 is not destroyed.
\<close>

definition ex_ble1 :: hub_state where
  "ex_ble1 = subscribeClient (hub_init\<lparr>adapters := {1, 2}\<rparr>) ''X'' 1 ''BLE-SERVER'' ''BLE''"

definition ex_ble2 :: "outcome \<times> hub_state" where
  "ex_ble2 = subscribeClient_begin ex_ble1 ''Y'' 2 ''BLE-SERVER'' ''BLE''"

section \<open>The schedule evaluator meets its rule\<close>


















section \<open>The chunker\<close>

lemma sendChunks_frames:
  assumes "0 < c" "0 \<le> off" "off \<le> int (length buf)"
  shows "sendChunks c buf off sent = Some (sent @ framesOf (nat c) (drop (nat off) buf))"
  using assms
proof (induction "length buf - nat off" arbitrary: off sent rule: less_induct)
  case less
  show ?case
  proof (cases "off < int (length buf)")
    case False
    with less.prems have "drop (nat off) buf = []" by simp
    then show ?thesis
      using False by (subst sendChunks.simps) (simp add: framesOf.simps)
  next
    case True
    define cur where "cur = min c (int (length buf) - off)"
    define xs where "xs = drop (nat off) buf"
    have cur: "0 < cur" "cur \<le> int (length buf) - off" "cur \<le> c"
      using True less.prems by (auto simp: cur_def)
    have xs: "xs \<noteq> []" "int (length xs) = int (length buf) - off"
      using True less.prems by (auto simp: xs_def)
    have tk: "slice buf off (off + cur) = take (nat c) xs"
      using cur xs less.prems by (auto simp: slice_def xs_def cur_def min_def)
    have dr: "drop (nat (off + cur)) buf = drop (nat c) xs"
      using cur xs less.prems by (auto simp: xs_def cur_def min_def nat_add_distrib add.commute)
    have last: "(int (length buf) - off \<le> c) = (length xs \<le> nat c)"
      using xs less.prems by auto
    have IH: "sendChunks c buf (off + cur) (sent @ [p]) =
        Some ((sent @ [p]) @ framesOf (nat c) (drop (nat (off + cur)) buf))" for p
      using cur less.prems by (intro less.hyps) auto
    have fr: "framesOf (nat c) xs =
        ((if length xs \<le> nat c then FLAG_END else FLAG_CONTINUE) # take (nat c) xs)
          # framesOf (nat c) (drop (nat c) xs)"
      using xs less.prems by (subst framesOf.simps) auto
    show ?thesis
      using True
      apply (subst sendChunks.simps)
      apply (simp only: Let_def if_True cur_def[symmetric] IH tk dr last xs_def[symmetric] fr)
      apply simp
      done
  qed
qed

lemma framesOf_concat: "0 < c \<Longrightarrow> concat (map tl (framesOf c xs)) = xs"
proof (induction c xs rule: framesOf.induct)
  case (1 c xs)
  then show ?case by (subst framesOf.simps) auto
qed

lemma framesOf_length: "0 < c \<Longrightarrow> length (framesOf c xs) = (length xs + c - 1) div c"
proof (induction c xs rule: framesOf.induct)
  case (1 c xs)
  show ?case
  proof (cases "xs = []")
    case True
    then show ?thesis using 1 by (subst framesOf.simps) simp
  next
    case False
    with 1 have IH: "length (framesOf c (drop c xs)) = (length (drop c xs) + c - 1) div c" by simp
    show ?thesis
    proof (cases "length xs \<le> c")
      case True
      with False have "(length xs + c - 1) div c = 1"
        using 1 by (cases xs) (auto simp: div_eq_dividend_iff Suc_le_eq intro!: )
      then show ?thesis using False True IH 1 by (subst framesOf.simps) simp
    next
      case gt: False
      then have "length xs + c - 1 = (length xs - c + c - 1) + c" using 1 by simp
      then have "(length xs + c - 1) div c = Suc ((length xs - c + c - 1) div c)"
        using 1 by (metis div_add_self2 less_numeral_extra(3) Suc_eq_plus1)
      then show ?thesis using False IH 1 by (subst framesOf.simps) simp
    qed
  qed
qed

lemma framesOf_payload:
  "f \<in> set (framesOf c xs) \<Longrightarrow> f \<noteq> [] \<and> length (tl f) \<le> c"
proof (induction c xs rule: framesOf.induct)
  case (1 c xs)
  have A: "\<not> (c = 0 \<or> xs = [])"
    using "1.prems" by (subst (asm) framesOf.simps) (auto split: if_splits)
  then have fr: "framesOf c xs =
      ((if length xs \<le> c then FLAG_END else FLAG_CONTINUE) # take c xs) # framesOf c (drop c xs)"
    by (subst framesOf.simps) simp
  with "1.prems" consider
      "f = (if length xs \<le> c then FLAG_END else FLAG_CONTINUE) # take c xs"
    | "f \<in> set (framesOf c (drop c xs))"
    by auto
  then show ?case
  proof cases
    case 1
    then show ?thesis by simp
  next
    case 2
    with "1.IH"[OF A] show ?thesis by simp
  qed
qed

lemma framesOf_last:
  "0 < c \<Longrightarrow> xs \<noteq> [] \<Longrightarrow> hd (last (framesOf c xs)) = FLAG_END"
proof (induction c xs rule: framesOf.induct)
  case (1 c xs)
  show ?case
  proof (cases "length xs \<le> c")
    case True
    then have "framesOf c xs = [FLAG_END # take c xs]"
      using "1.prems" by (subst framesOf.simps) (simp add: framesOf.simps)
    then show ?thesis by simp
  next
    case False
    then have ne: "drop c xs \<noteq> []" by simp
    then have "framesOf c (drop c xs) \<noteq> []"
      using "1.prems" by (subst framesOf.simps) simp
    moreover have "hd (last (framesOf c (drop c xs))) = FLAG_END"
      using 1 ne by simp
    ultimately show ?thesis
      using "1.prems" by (subst framesOf.simps) simp
  qed
qed

lemma framesOf_middle:
  "0 < c \<Longrightarrow> Suc i < length (framesOf c xs) \<Longrightarrow> hd (framesOf c xs ! i) = FLAG_CONTINUE"
proof (induction c xs arbitrary: i rule: framesOf.induct)
  case (1 c xs)
  from "1.prems" have ne: "xs \<noteq> []" by (subst (asm) framesOf.simps) auto
  have fr: "framesOf c xs = ((if length xs \<le> c then FLAG_END else FLAG_CONTINUE) # take c xs)
             # framesOf c (drop c xs)"
    using ne "1.prems" by (subst framesOf.simps) simp
  have notlast: "\<not> length xs \<le> c"
  proof
    assume "length xs \<le> c"
    then have "framesOf c (drop c xs) = []" by (subst framesOf.simps) simp
    with fr "1.prems" show False by simp
  qed
  show ?case
  proof (cases i)
    case 0
    then show ?thesis using fr notlast by simp
  next
    case (Suc j)
    with "1.prems" fr have "Suc j < length (framesOf c (drop c xs))" by simp
    with 1 ne have "hd (framesOf c (drop c xs) ! j) = FLAG_CONTINUE" by simp
    then show ?thesis using fr Suc by simp
  qed
qed

lemma ceiling_div_nat:
  assumes "0 < c"
  shows "\<lceil>real l / real c\<rceil> = int ((l + c - 1) div c)"
proof -
  define q where "q = (l + c - 1) div c"
  have a: "q * c \<le> l + c - 1"
    unfolding q_def by simp
  have b: "l + c - 1 < c + q * c"
    unfolding q_def using assms by (rule dividend_less_div_times)
  from a assms have 1: "q * c < l + c" by linarith
  from b assms have 2: "l \<le> q * c" by linarith
  from 1 have r1: "real q * real c < real l + real c"
    by (metis of_nat_add of_nat_less_iff of_nat_mult)
  from 2 have r2: "real l \<le> real q * real c"
    by (metis of_nat_le_iff of_nat_mult)
  have "real_of_int (int q) - 1 < real l / real c"
    using assms r1 by (simp add: field_simps)
  moreover have "real l / real c \<le> real_of_int (int q)"
    using assms r2 by (simp add: field_simps)
  ultimately show ?thesis
    unfolding q_def[symmetric] ceiling_eq_iff by simp
qed

lemma sendViewUpdate_multi:
  assumes "subscribed ch" "1 \<le> maxValueSize ch - 1" "maxValueSize ch - 1 < int (length buffer)"
  shows "sendViewUpdate ch buffer =
     Some ((FLAG_START # take (nat (maxValueSize ch - 1)) buffer)
            # framesOf (nat (maxValueSize ch - 1)) (drop (nat (maxValueSize ch - 1)) buffer))"
proof -
  define c where "c = maxValueSize ch - 1"
  have m: "min c (int (length buffer)) = c" using assms by (simp add: c_def)
  have "sendChunks c buffer c [FLAG_START # slice buffer 0 c] =
      Some ([FLAG_START # slice buffer 0 c] @ framesOf (nat c) (drop (nat c) buffer))"
    using assms by (intro sendChunks_frames) (auto simp: c_def)
  then show ?thesis
    using assms m by (simp add: sendViewUpdate_def Let_def c_def[symmetric] slice_def)
qed

text \<open>
  C3. For every serialized event of byte length \<open>L\<close> and negotiated maximum payload size
  \<open>M \<ge> 2\<close>, with a receiver attached: when \<open>L \<le> M - 1\<close> the chunker sends exactly one
  packet, tagged \<open>SINGLE\<close>, carrying all \<open>L\<close> bytes (also for \<open>L = 0\<close>); otherwise it
  returns having sent exactly \<open>ceil(L / (M - 1))\<close> frames, each with at most \<open>M - 1\<close>
  payload bytes, the first tagged \<open>START\<close>, the last \<open>END\<close>, every frame in between
  \<open>CONTINUE\<close>, and the payloads concatenated in the order sent are the original bytes.
\<close>

theorem sendViewUpdate_chunking:
  assumes "subscribed ch" and "2 \<le> maxValueSize ch"
  shows "(int (length buffer) \<le> maxValueSize ch - 1 \<longrightarrow>
            sendViewUpdate ch buffer = Some [FLAG_SINGLE # buffer])
       \<and> (maxValueSize ch - 1 < int (length buffer) \<longrightarrow>
            (\<exists>frames. sendViewUpdate ch buffer = Some frames
               \<and> int (length frames) =
                     \<lceil>real (length buffer) / real_of_int (maxValueSize ch - 1)\<rceil>
               \<and> (\<forall>f \<in> set frames. f \<noteq> [] \<and> int (length (tl f)) \<le> maxValueSize ch - 1)
               \<and> hd (hd frames) = FLAG_START
               \<and> hd (last frames) = FLAG_END
               \<and> (\<forall>i. 0 < i \<and> i < length frames - 1 \<longrightarrow> hd (frames ! i) = FLAG_CONTINUE)
               \<and> concat (map tl frames) = buffer))"
proof (intro conjI impI)
  assume "int (length buffer) \<le> maxValueSize ch - 1"
  then show "sendViewUpdate ch buffer = Some [FLAG_SINGLE # buffer]"
    using assms by (simp add: sendViewUpdate_def)
next
  assume big: "maxValueSize ch - 1 < int (length buffer)"
  define c where "c = nat (maxValueSize ch - 1)"
  define rest where "rest = framesOf c (drop c buffer)"
  define frames where "frames = (FLAG_START # take c buffer) # rest"
  have c: "0 < c" "int c = maxValueSize ch - 1" "c < length buffer"
    using assms big by (auto simp: c_def)
  have run: "sendViewUpdate ch buffer = Some frames"
    using sendViewUpdate_multi[of ch buffer] assms big
    by (simp add: frames_def rest_def c_def)
  have ne: "drop c buffer \<noteq> []" using c by simp
  have rest_ne: "rest \<noteq> []"
    unfolding rest_def using c ne by (subst framesOf.simps) simp
  have "length rest = (length buffer - c + c - 1) div c"
    unfolding rest_def using c by (simp add: framesOf_length)
  also have "\<dots> = (length buffer - 1) div c" using c by simp
  finally have lr: "length rest = (length buffer - 1) div c" .
  have "length buffer + c - 1 = (length buffer - 1) + c" using c by simp
  then have "(length buffer + c - 1) div c = Suc ((length buffer - 1) div c)"
    using c div_add_self2[of c "length buffer - 1"] by simp
  with lr have "length frames = (length buffer + c - 1) div c"
    by (simp add: frames_def)
  then have cnt: "int (length frames) =
      \<lceil>real (length buffer) / real_of_int (maxValueSize ch - 1)\<rceil>"
    using ceiling_div_nat[OF c(1), of "length buffer"] c(2) by (metis of_int_of_nat_eq)
  have pay: "\<forall>f \<in> set frames. f \<noteq> [] \<and> int (length (tl f)) \<le> maxValueSize ch - 1"
  proof
    fix f assume "f \<in> set frames"
    then consider "f = FLAG_START # take c buffer" | "f \<in> set rest"
      by (auto simp: frames_def)
    then show "f \<noteq> [] \<and> int (length (tl f)) \<le> maxValueSize ch - 1"
    proof cases
      case 1
      then show ?thesis using c by simp
    next
      case 2
      then have "f \<noteq> [] \<and> length (tl f) \<le> c"
        unfolding rest_def by (rule framesOf_payload)
      then show ?thesis using c by linarith
    qed
  qed
  have first: "hd (hd frames) = FLAG_START" by (simp add: frames_def)
  have lastf: "hd (last frames) = FLAG_END"
    using rest_ne framesOf_last[OF c(1) ne] by (simp add: frames_def rest_def)
  have mid: "\<forall>i. 0 < i \<and> i < length frames - 1 \<longrightarrow> hd (frames ! i) = FLAG_CONTINUE"
  proof (intro allI impI)
    fix i assume i: "0 < i \<and> i < length frames - 1"
    then obtain j where j: "i = Suc j" by (cases i) auto
    with i have "Suc j < length rest" by (simp add: frames_def)
    then have "hd (rest ! j) = FLAG_CONTINUE"
      unfolding rest_def by (intro framesOf_middle c)
    then show "hd (frames ! i) = FLAG_CONTINUE" by (simp add: frames_def j)
  qed
  have cat: "concat (map tl frames) = buffer"
    using framesOf_concat[OF c(1), of "drop c buffer"] by (simp add: frames_def rest_def)
  from run cnt pay first lastf mid cat
  show "\<exists>frames. sendViewUpdate ch buffer = Some frames
               \<and> int (length frames) =
                     \<lceil>real (length buffer) / real_of_int (maxValueSize ch - 1)\<rceil>
               \<and> (\<forall>f \<in> set frames. f \<noteq> [] \<and> int (length (tl f)) \<le> maxValueSize ch - 1)
               \<and> hd (hd frames) = FLAG_START
               \<and> hd (last frames) = FLAG_END
               \<and> (\<forall>i. 0 < i \<and> i < length frames - 1 \<longrightarrow> hd (frames ! i) = FLAG_CONTINUE)
               \<and> concat (map tl frames) = buffer"
    by blast
qed

theorem sendViewUpdate_chunking_witness:
  "subscribed \<lparr>subscribed = True, maxValueSize = 3\<rparr>
   \<and> (2::int) \<le> maxValueSize \<lparr>subscribed = True, maxValueSize = 3\<rparr>
   \<and> sendViewUpdate \<lparr>subscribed = True, maxValueSize = 3\<rparr> [7, 8] = Some [[FLAG_SINGLE, 7, 8]]
   \<and> (\<exists>frames. sendViewUpdate \<lparr>subscribed = True, maxValueSize = 3\<rparr> [1, 2, 3, 4, 5] = Some frames
        \<and> length frames = 3 \<and> concat (map tl frames) = [1, 2, 3, 4, 5])"
  using sendViewUpdate_chunking[of "\<lparr>subscribed = True, maxValueSize = 3\<rparr>" "[7, 8]"]
    sendViewUpdate_chunking[of "\<lparr>subscribed = True, maxValueSize = 3\<rparr>" "[1, 2, 3, 4, 5]"]
  by auto

section \<open>The rotation scheduler\<close>

lemma scheduledViews_filter:
  "scheduledViews e st channel = filter (eligibleNow e st) (getChannelViews e channel)"
  unfolding scheduledViews_def filter_filter eligibleNow_def
  by (rule filter_cong) (auto split: option.splits)

lemma find_filter_hd:
  "find P xs = (case filter P xs of [] \<Rightarrow> None | x # _ \<Rightarrow> Some x)"
  by (induction xs) auto

lemma firstEligible_scheduled:
  "firstEligible e st channel =
     (case scheduledViews e st channel of [] \<Rightarrow> None | first # _ \<Rightarrow> Some first)"
  by (simp add: firstEligible_def scheduledViews_filter find_filter_hd)

lemma firstEligible_exists:
  assumes "firstEligible e st channel = Some first"
  shows "\<exists>v. views st first = Some v"
proof -
  from assms have "eligibleNow e st first"
    unfolding firstEligible_def by (auto simp: find_Some_iff)
  then show ?thesis by (auto simp: eligibleNow_def split: option.splits)
qed

lemma fallback_reselect:
  "(case scheduledViews e st channel of
      [] \<Rightarrow> (None, st)
    | first # _ \<Rightarrow>
        (case views st first of
           None \<Rightarrow> (None, st)
         | Some firstView \<Rightarrow>
             (Some firstView,
              st\<lparr>channelCurrentViews := (channelCurrentViews st)(channel \<mapsto> first)\<rparr>)))
   = reselect e st channel"
proof (cases "scheduledViews e st channel")
  case Nil
  then show ?thesis by (simp add: reselect_def firstEligible_scheduled)
next
  case (Cons first rest)
  then have f: "firstEligible e st channel = Some first"
    by (simp add: firstEligible_scheduled)
  from firstEligible_exists[OF f] obtain v where "views st first = Some v" ..
  then show ?thesis using Cons f by (simp add: reselect_def)
qed

lemma getCurrentView_cases:
  assumes "channel \<noteq> []"
  shows "getCurrentView e st channel =
     (if fallsThrough e st channel then reselect e st channel
      else (views st (the (channelCurrentViews st channel)), st))"
proof (cases "channelCurrentViews st channel")
  case None
  then show ?thesis
    using assms by (simp add: getCurrentView_def fallsThrough_def fallback_reselect Let_def)
next
  case (Some viewId)
  show ?thesis
  proof (cases "validCurrent e st channel viewId")
    case False
    then show ?thesis
      using assms Some
      by (auto simp: getCurrentView_def fallsThrough_def fallback_reselect Let_def validCurrent_def)
  next
    case True
    then obtain view where v: "views st viewId = Some view"
      by (auto simp: validCurrent_def)
    show ?thesis
      using assms Some True v
      by (auto simp: getCurrentView_def fallsThrough_def fallback_reselect Let_def
          validCurrent_def eligibleNow_def)
  qed
qed

lemma getCurrentView_legacy: "snd (getCurrentView e st []) = st"
  by (simp add: getCurrentView_def split: option.splits)

lemma getCurrentView_keeps:
  "views (snd (getCurrentView e st channel)) = views st"
  "currentView (snd (getCurrentView e st channel)) = currentView st"
  "viewActivationTime (snd (getCurrentView e st channel)) = viewActivationTime st"
  "manualOverrides (snd (getCurrentView e st channel)) = manualOverrides st"
  "channelRotations (snd (getCurrentView e st channel)) = channelRotations st"
  "timers (snd (getCurrentView e st channel)) = timers st"
  "nextTimer (snd (getCurrentView e st channel)) = nextTimer st"
  "published (snd (getCurrentView e st channel)) = published st"
  "deferredNext (snd (getCurrentView e st channel)) = deferredNext st"
  by (cases "channel = []";
      simp add: getCurrentView_legacy getCurrentView_cases reselect_def split: option.splits)+

lemma getCurrentView_other:
  "c \<noteq> channel \<Longrightarrow>
     channelCurrentViews (snd (getCurrentView e st channel)) c = channelCurrentViews st c"
  by (cases "channel = []";
      simp add: getCurrentView_legacy getCurrentView_cases reselect_def split: option.splits)

lemma broadcast_keeps:
  "views (broadcastViewChange e st channel) = views st"
  "currentView (broadcastViewChange e st channel) = currentView st"
  "viewActivationTime (broadcastViewChange e st channel) = viewActivationTime st"
  "manualOverrides (broadcastViewChange e st channel) = manualOverrides st"
  "channelRotations (broadcastViewChange e st channel) = channelRotations st"
  "timers (broadcastViewChange e st channel) = timers st"
  "nextTimer (broadcastViewChange e st channel) = nextTimer st"
proof -
  define tc where "tc = (if channel \<noteq> [] then channel else ''kiosk'')"
  obtain r st1 where g: "getCurrentView e st tc = (r, st1)" by (cases "getCurrentView e st tc")
  then have st1: "st1 = snd (getCurrentView e st tc)" by simp
  have b: "broadcastViewChange e st channel =
     (case r of None \<Rightarrow> st1
      | Some v \<Rightarrow>
          if isGallery v then
            (case getGalleryImages e (view_id v) of
               None \<Rightarrow> st1
             | Some n \<Rightarrow>
                 if n = 0 then st1\<lparr>deferredNext := deferredNext st1 @ [tc]\<rparr>
                 else st1\<lparr>published := published st1 @ [(tc, v)]\<rparr>)
          else st1\<lparr>published := published st1 @ [(tc, v)]\<rparr>)"
    unfolding broadcastViewChange_def tc_def[symmetric] Let_def g by simp
  show "views (broadcastViewChange e st channel) = views st"
    unfolding b by (simp add: st1 getCurrentView_keeps split: option.splits)
  show "currentView (broadcastViewChange e st channel) = currentView st"
    unfolding b by (simp add: st1 getCurrentView_keeps split: option.splits)
  show "viewActivationTime (broadcastViewChange e st channel) = viewActivationTime st"
    unfolding b by (simp add: st1 getCurrentView_keeps split: option.splits)
  show "manualOverrides (broadcastViewChange e st channel) = manualOverrides st"
    unfolding b by (simp add: st1 getCurrentView_keeps split: option.splits)
  show "channelRotations (broadcastViewChange e st channel) = channelRotations st"
    unfolding b by (simp add: st1 getCurrentView_keeps split: option.splits)
  show "timers (broadcastViewChange e st channel) = timers st"
    unfolding b by (simp add: st1 getCurrentView_keeps split: option.splits)
  show "nextTimer (broadcastViewChange e st channel) = nextTimer st"
    unfolding b by (simp add: st1 getCurrentView_keeps split: option.splits)
qed

lemma broadcast_current:
  assumes "channel \<noteq> []" "\<not> fallsThrough e st channel"
    "channelCurrentViews st channel = Some vid" "views st vid = Some view"
  shows "broadcastViewChange e st channel =
     (if willPublish e view then st\<lparr>published := published st @ [(channel, view)]\<rparr>
      else if getGalleryImages e (view_id view) = Some 0
           then st\<lparr>deferredNext := deferredNext st @ [channel]\<rparr>
           else st)"
  using assms
  by (auto simp: broadcastViewChange_def getCurrentView_cases willPublish_def split: option.splits)

lemma broadcast_reselected:
  assumes "channel \<noteq> []" "fallsThrough e st channel"
  shows "channelCurrentViews (broadcastViewChange e st channel) channel =
     (case firstEligible e st channel of
        None \<Rightarrow> channelCurrentViews st channel
      | Some first \<Rightarrow> Some first)"
  using assms firstEligible_exists[of e st channel]
  by (auto simp: broadcastViewChange_def getCurrentView_cases reselect_def split: option.splits)

lemma scheduledViews_views:
  "views st' = views st \<Longrightarrow> scheduledViews e st' channel = scheduledViews e st channel"
  by (simp add: scheduledViews_def)

lemma schedule_keeps:
  "views (scheduleViewRotation e st vid channel) = views st"
  "currentView (scheduleViewRotation e st vid channel) = currentView st"
  "viewActivationTime (scheduleViewRotation e st vid channel) = viewActivationTime st"
  "manualOverrides (scheduleViewRotation e st vid channel) = manualOverrides st"
  "channelCurrentViews (scheduleViewRotation e st vid channel) = channelCurrentViews st"
  "published (scheduleViewRotation e st vid channel) = published st"
  "deferredNext (scheduleViewRotation e st vid channel) = deferredNext st"
  by (simp_all add: scheduleViewRotation_def clearTimeout_def Let_def split: option.splits)

lemma schedule_timers:
  assumes "views st vid = Some view" "metadata view = Some md"
  shows "timers (scheduleViewRotation e st vid channel) =
     afterClear st channel @
       (if armable e st vid channel
        then [\<lparr>t_handle = nextTimer st, t_view = vid, t_channel = channel,
               t_delay = the (viewDelay e md)\<rparr>]
        else [])"
  using assms
  by (auto simp: scheduleViewRotation_def clearTimeout_def Let_def afterClear_def armable_def
      scheduledViews_def split: option.splits)

lemma schedule_no_metadata:
  assumes "views st vid = None \<or> (\<exists>view. views st vid = Some view \<and> metadata view = None)"
  shows "scheduleViewRotation e st vid channel = st"
  using assms by (auto simp: scheduleViewRotation_def)

lemma broadcast_published:
  assumes "channel \<noteq> []"
  shows "published (broadcastViewChange e st channel)
           = published st @ eventsFor e st channel (shownId e st channel)"
proof (cases "fallsThrough e st channel")
  case True
  then show ?thesis
    using assms firstEligible_exists[of e st channel]
    by (auto simp: broadcastViewChange_def getCurrentView_cases reselect_def shownId_def
        eventsFor_def willPublish_def split: option.splits)
next
  case False
  then obtain vid where c: "channelCurrentViews st channel = Some vid"
    by (auto simp: fallsThrough_def split: option.splits)
  with False obtain view where v: "views st vid = Some view"
    by (auto simp: fallsThrough_def validCurrent_def)
  show ?thesis
    using False c v by (simp add: broadcast_current[OF assms False c v] shownId_def eventsFor_def)
qed

lemma broadcast_pointer:
  assumes "channel \<noteq> []"
  shows "channelCurrentViews (broadcastViewChange e st channel) channel
           = (case shownId e st channel of
                None \<Rightarrow> channelCurrentViews st channel
              | Some s \<Rightarrow> Some s)"
proof (cases "fallsThrough e st channel")
  case True
  then show ?thesis
    using broadcast_reselected[OF assms True] by (simp add: shownId_def)
next
  case False
  then obtain vid where c: "channelCurrentViews st channel = Some vid"
    by (auto simp: fallsThrough_def split: option.splits)
  with False obtain view where v: "views st vid = Some view"
    by (auto simp: fallsThrough_def validCurrent_def)
  show ?thesis
    using False c v by (simp add: broadcast_current[OF assms False c v] shownId_def)
qed

lemma mapSet_keys: "fst ` set (mapSet k v m) = insert k (fst ` set m)"
proof -
  have "map fst (map (\<lambda>p. if fst p = k then (k, v) else p) m) = map fst m"
    by (induction m) auto
  then have "fst ` set (map (\<lambda>p. if fst p = k then (k, v) else p) m) = fst ` set m"
    by (metis set_map)
  then show ?thesis
    by (cases "k \<in> fst ` set m") (auto simp: mapSet_def)
qed

lemma mapSet_entry: "(k, v) \<in> set (mapSet k v m)"
  by (auto simp: mapSet_def image_iff)

lemma schedule_timers':
  "timers (scheduleViewRotation e st vid channel) =
     (if hasMetadata st vid then afterClear st channel @ newTimer e st vid channel
      else timers st)"
proof (cases "hasMetadata st vid")
  case True
  then obtain view md where v: "views st vid = Some view" "metadata view = Some md"
    by (auto simp: hasMetadata_def split: option.splits)
  show ?thesis
    using True v schedule_timers[OF v, of e channel]
    by (auto simp: newTimer_def armable_def split: option.splits)
next
  case False
  then have "scheduleViewRotation e st vid channel = st"
    by (intro schedule_no_metadata) (auto simp: hasMetadata_def split: option.splits)
  with False show ?thesis by simp
qed

lemma setCurrentView_error:
  "fst (setCurrentView e st vid channel manual) \<noteq> None \<Longrightarrow>
     snd (setCurrentView e st vid channel manual) = st"
  by (auto simp: setCurrentView_def Let_def split: if_splits)

lemma setCurrentView_raises:
  assumes "channel \<noteq> []"
  shows "(fst (setCurrentView e st vid channel manual) \<noteq> None)
          = (views st vid = None \<or> vid \<notin> set (getChannelViews e channel))"
  using assms by (auto simp: setCurrentView_def Let_def)

lemma setCurrentView_success:
  assumes "channel \<noteq> []" "views st vid \<noteq> None" "vid \<in> set (getChannelViews e channel)"
  shows "setCurrentView e st vid channel manual =
     (None, scheduleViewRotation e
              (broadcastViewChange e (afterPointer e st vid channel manual) channel) vid channel)"
  using assms by (simp add: setCurrentView_def afterPointer_def Let_def)

lemma afterPointer_fields:
  "views (afterPointer e st vid channel manual) = views st"
  "channelCurrentViews (afterPointer e st vid channel manual) channel = Some vid"
  "timers (afterPointer e st vid channel manual) = timers st"
  "nextTimer (afterPointer e st vid channel manual) = nextTimer st"
  "channelRotations (afterPointer e st vid channel manual) = channelRotations st"
  "published (afterPointer e st vid channel manual) = published st"
  "deferredNext (afterPointer e st vid channel manual) = deferredNext st"
  "\<not> manual \<Longrightarrow> manualOverrides (afterPointer e st vid channel manual) = manualOverrides st"
  by (simp_all add: afterPointer_def Let_def)

lemma afterPointer_times:
  "\<exists>times. viewActivationTime (afterPointer e st vid channel manual) channel = Some times
      \<and> times vid = Some (dateNow e)"
  by (simp add: afterPointer_def Let_def)

lemma afterPointer_override:
  "isManuallyOverridden (afterPointer e st vid channel manual) channel vid
     = (manual \<or> isManuallyOverridden st channel vid)"
  by (auto simp: afterPointer_def Let_def isManuallyOverridden_def mapSet_keys split: option.splits)

lemma afterPointer_manual:
  "manual \<Longrightarrow> \<exists>info. manualOverrides (afterPointer e st vid channel manual) channel = Some info
      \<and> (vid, dateNow e) \<in> set info"
  by (simp add: afterPointer_def Let_def mapSet_entry)

lemma eligibleNow_views: "views st' = views st \<Longrightarrow> eligibleNow e st' = eligibleNow e st"
  by (rule ext) (simp add: eligibleNow_def)

lemma firstEligible_views:
  assumes "views st' = views st"
  shows "firstEligible e st' channel = firstEligible e st channel"
  unfolding firstEligible_def eligibleNow_views[OF assms] ..

lemma afterPointer_shown:
  assumes "views st vid \<noteq> None" "vid \<in> set (getChannelViews e channel)"
  shows "shownId e (afterPointer e st vid channel manual) channel
           = shownAfterSet e st vid channel manual"
proof -
  define st3 where "st3 = afterPointer e st vid channel manual"
  have v: "views st3 = views st" and c: "channelCurrentViews st3 channel = Some vid"
    unfolding st3_def by (rule afterPointer_fields)+
  have ov: "isManuallyOverridden st3 channel vid = (manual \<or> isManuallyOverridden st channel vid)"
    unfolding st3_def by (rule afterPointer_override)
  have el: "eligibleNow e st3 vid = eligibleNow e st vid"
    by (simp add: eligibleNow_views[OF v])
  have vc: "validCurrent e st3 channel vid = (vid \<noteq> [])"
    using assms by (simp add: validCurrent_def v c)
  have ft: "fallsThrough e st3 channel =
      (\<not> validCurrent e st3 channel vid
       \<or> (\<not> isManuallyOverridden st3 channel vid \<and> \<not> eligibleNow e st3 vid))"
    by (simp add: fallsThrough_def c)
  have "shownId e st3 channel = shownAfterSet e st vid channel manual"
    unfolding shownId_def shownAfterSet_def ft vc ov el firstEligible_views[OF v] c
    by auto
  then show ?thesis by (simp add: st3_def)
qed

lemma afterClear_eq:
  assumes "channelRotations st' = channelRotations st" "timers st' = timers st"
  shows "afterClear st' channel = afterClear st channel"
  unfolding afterClear_def assms ..

lemma hasMetadata_eq: "views st' = views st \<Longrightarrow> hasMetadata st' vid = hasMetadata st vid"
  by (simp add: hasMetadata_def)

lemma armable_views:
  assumes "views st' = views st"
  shows "armable e st' vid channel = armable e st vid channel"
  unfolding armable_def scheduledViews_views[OF assms] assms ..

lemma newTimer_eq:
  assumes "views st' = views st" "nextTimer st' = nextTimer st"
  shows "newTimer e st' vid channel = newTimer e st vid channel"
  unfolding newTimer_def armable_views[OF assms(1)] assms ..

lemma setCurrentView_result:
  assumes "channel \<noteq> []" and "setCurrentView e st vid channel manual = (err, st')"
  shows "((err \<noteq> None) = (views st vid = None \<or> vid \<notin> set (getChannelViews e channel)))
       \<and> (err \<noteq> None \<longrightarrow> st' = st)
       \<and> (err = None \<longrightarrow>
            (\<exists>times. viewActivationTime st' channel = Some times \<and> times vid = Some (dateNow e))
          \<and> (manual \<longrightarrow> (\<exists>info. manualOverrides st' channel = Some info
                                \<and> (vid, dateNow e) \<in> set info))
          \<and> (\<not> manual \<longrightarrow> manualOverrides st' = manualOverrides st)
          \<and> channelCurrentViews st' channel
              = Some (case shownAfterSet e st vid channel manual of None \<Rightarrow> vid | Some s \<Rightarrow> s)
          \<and> published st'
              = published st @ eventsFor e st channel (shownAfterSet e st vid channel manual)
          \<and> timers st'
              = (if hasMetadata st vid then afterClear st channel @ newTimer e st vid channel
                 else timers st))"
proof -
  from assms(2) have r: "err = fst (setCurrentView e st vid channel manual)"
      "st' = snd (setCurrentView e st vid channel manual)" by simp_all
  have A: "(err \<noteq> None) = (views st vid = None \<or> vid \<notin> set (getChannelViews e channel))"
    unfolding r by (rule setCurrentView_raises[OF assms(1)])
  have B: "err \<noteq> None \<longrightarrow> st' = st"
    unfolding r using setCurrentView_error by blast
  have C: "(\<exists>times. viewActivationTime st' channel = Some times \<and> times vid = Some (dateNow e))
          \<and> (manual \<longrightarrow> (\<exists>info. manualOverrides st' channel = Some info
                                \<and> (vid, dateNow e) \<in> set info))
          \<and> (\<not> manual \<longrightarrow> manualOverrides st' = manualOverrides st)
          \<and> channelCurrentViews st' channel
              = Some (case shownAfterSet e st vid channel manual of None \<Rightarrow> vid | Some s \<Rightarrow> s)
          \<and> published st'
              = published st @ eventsFor e st channel (shownAfterSet e st vid channel manual)
          \<and> timers st'
              = (if hasMetadata st vid then afterClear st channel @ newTimer e st vid channel
                 else timers st)" if ok: "err = None"
  proof -
    from ok A have ex: "views st vid \<noteq> None" and mem: "vid \<in> set (getChannelViews e channel)"
      by auto
    let ?st3 = "afterPointer e st vid channel manual"
    let ?st4 = "broadcastViewChange e ?st3 channel"
    have st': "st' = scheduleViewRotation e ?st4 vid channel"
      unfolding r using setCurrentView_success[OF assms(1) ex mem] by simp
    have v4: "views ?st4 = views st" by (simp add: broadcast_keeps afterPointer_fields)
    have sh: "shownId e ?st3 channel = shownAfterSet e st vid channel manual"
      by (rule afterPointer_shown[OF ex mem])
    have c1: "\<exists>times. viewActivationTime st' channel = Some times \<and> times vid = Some (dateNow e)"
      unfolding st' by (simp add: schedule_keeps broadcast_keeps afterPointer_times)
    have c2: "manual \<longrightarrow> (\<exists>info. manualOverrides st' channel = Some info
                                \<and> (vid, dateNow e) \<in> set info)"
      unfolding st' by (simp add: schedule_keeps broadcast_keeps afterPointer_manual)
    have c3: "\<not> manual \<longrightarrow> manualOverrides st' = manualOverrides st"
      unfolding st' by (simp add: schedule_keeps broadcast_keeps afterPointer_fields)
    have c4: "channelCurrentViews st' channel
              = Some (case shownAfterSet e st vid channel manual of None \<Rightarrow> vid | Some s \<Rightarrow> s)"
      unfolding st'
      by (simp add: schedule_keeps broadcast_pointer[OF assms(1)] sh afterPointer_fields
          split: option.splits)
    have c5: "published st'
              = published st @ eventsFor e st channel (shownAfterSet e st vid channel manual)"
      unfolding st'
      by (simp add: schedule_keeps broadcast_published[OF assms(1)] sh afterPointer_fields
          eventsFor_def split: option.splits)
    have c6: "timers st'
              = (if hasMetadata st vid then afterClear st channel @ newTimer e st vid channel
                 else timers st)"
    proof -
      have "afterClear ?st4 channel = afterClear st channel"
        by (rule afterClear_eq) (simp_all add: broadcast_keeps afterPointer_fields)
      moreover have "newTimer e ?st4 vid channel = newTimer e st vid channel"
        by (rule newTimer_eq) (simp_all add: broadcast_keeps afterPointer_fields)
      moreover have "hasMetadata ?st4 vid = hasMetadata st vid"
        by (rule hasMetadata_eq) (rule v4)
      moreover have "timers ?st4 = timers st"
        by (simp add: broadcast_keeps afterPointer_fields)
      ultimately show ?thesis
        unfolding st' schedule_timers' by simp
    qed
    from c1 c2 c3 c4 c5 c6 show ?thesis by blast
  qed
  from A B C show ?thesis by blast
qed

lemma clearOverride_fields:
  "views (clearOverride st channel vid) = views st"
  "currentView (clearOverride st channel vid) = currentView st"
  "channelCurrentViews (clearOverride st channel vid) = channelCurrentViews st"
  "viewActivationTime (clearOverride st channel vid) = viewActivationTime st"
  "channelRotations (clearOverride st channel vid) = channelRotations st"
  "timers (clearOverride st channel vid) = timers st"
  "nextTimer (clearOverride st channel vid) = nextTimer st"
  "published (clearOverride st channel vid) = published st"
  "deferredNext (clearOverride st channel vid) = deferredNext st"
  by (simp_all add: clearOverride_def Let_def split: option.splits)

lemma clearOverride_removes:
  "\<not> isManuallyOverridden (clearOverride st channel vid) channel vid"
  by (auto simp: clearOverride_def Let_def isManuallyOverridden_def mapDelete_def
      split: option.splits)

lemma clearOverride_others:
  "isManuallyOverridden (clearOverride st channel vid) c w
     = (isManuallyOverridden st c w \<and> \<not> (c = channel \<and> w = vid))"
proof (cases "manualOverrides st channel")
  case None
  then show ?thesis
    by (auto simp: clearOverride_def isManuallyOverridden_def split: option.splits)
next
  case (Some info)
  have k: "fst ` set (mapDelete vid info) = fst ` set info - {vid}"
    by (auto simp: mapDelete_def image_iff)
  have e: "mapDelete vid info = [] \<Longrightarrow> fst ` set info \<subseteq> {vid}"
    using k by auto
  show ?thesis
    using Some k e
    by (auto simp: clearOverride_def Let_def isManuallyOverridden_def split: option.splits)
qed

lemma indexOf_absent: "x \<notin> set xs \<Longrightarrow> indexOf xs x = - 1"
  by (induction xs) (auto simp: Let_def)

lemma emptyGallery_views:
  "views st' = views st \<Longrightarrow> emptyGallery e st' vid = emptyGallery e st vid"
  by (simp add: emptyGallery_def)

lemma skipEmptyGalleries_views:
  assumes "views st' = views st"
  shows "skipEmptyGalleries e st' vs k i = skipEmptyGalleries e st vs k i"
  by (induction k arbitrary: i) (simp_all add: emptyGallery_views[OF assms])

lemma skipEmptyGalleries_find:
  assumes "k + i = length vs"
  shows "find (\<lambda>vid. \<not> emptyGallery e st vid) (drop i vs)
           = map_option ((!) vs) (skipEmptyGalleries e st vs k i)
       \<and> (\<forall>j. skipEmptyGalleries e st vs k i = Some j \<longrightarrow> j < length vs)"
  using assms
proof (induction k arbitrary: i)
  case 0
  then show ?case by simp
next
  case (Suc k)
  then have i: "i < length vs" by simp
  then have d: "drop i vs = vs ! i # drop (Suc i) vs"
    by (simp add: Cons_nth_drop_Suc)
  show ?case
  proof (cases "emptyGallery e st (vs ! i)")
    case False
    then show ?thesis using i d by simp
  next
    case True
    show ?thesis
    proof (cases k)
      case 0
      with Suc.prems have "Suc i = length vs" by simp
      then show ?thesis using True 0 d by simp
    next
      case (Suc k')
      with Suc.prems have lt: "Suc i < length vs" by simp
      then have m: "(i + 1) mod length vs = Suc i" by simp
      have "k + Suc i = length vs" using Suc.prems by simp
      from Suc.IH[OF this] show ?thesis
        using True d m by simp
    qed
  qed
qed

lemma skipEmptyGalleries_target:
  "rotationTarget e st channel
     = map_option ((!) (scheduledViews e st channel))
         (skipEmptyGalleries e st (scheduledViews e st channel)
            (length (scheduledViews e st channel)) 0)"
  "skipEmptyGalleries e st (scheduledViews e st channel)
            (length (scheduledViews e st channel)) 0 = Some j
     \<Longrightarrow> j < length (scheduledViews e st channel)"
  using skipEmptyGalleries_find[of "length (scheduledViews e st channel)" 0
      "scheduledViews e st channel" e st]
  by (simp_all add: rotationTarget_def)

lemma scheduledViews_member:
  assumes "vid \<in> set (scheduledViews e st channel)"
  shows "views st vid \<noteq> None" "vid \<in> set (getChannelViews e channel)" "eligibleNow e st vid"
  using assms by (auto simp: scheduledViews_filter eligibleNow_def split: option.splits)

lemma rotationTarget_member:
  assumes "rotationTarget e st channel = Some nxt"
  shows "nxt \<in> set (scheduledViews e st channel)"
  using assms by (auto simp: rotationTarget_def find_Some_iff)

text \<open>The rotation step from a state in which the fired view is not eligible.\<close>

lemma rotate_ineligible:
  assumes "\<not> eligibleNow e st vid"
  shows "rotate e st vid channel had =
     (case rotationTarget e st channel of
        None \<Rightarrow> st
      | Some nxt \<Rightarrow>
          snd (setCurrentView e (if had then clearOverride st channel vid else st)
                 nxt channel False))"
proof (cases "scheduledViews e st channel = []")
  case True
  then show ?thesis by (simp add: rotate_def rotationTarget_def)
next
  case False
  from assms have "vid \<notin> set (scheduledViews e st channel)"
    using scheduledViews_member(3) by blast
  then have ix: "indexOf (scheduledViews e st channel) vid = - 1"
    by (rule indexOf_absent)
  show ?thesis
    using False
    by (simp add: rotate_def Let_def ix skipEmptyGalleries_target(1) split: option.splits)
qed

lemma newTimer_armed:
  assumes "armable e st vid channel"
  shows "\<exists>t. newTimer e st vid channel = [t] \<and> t_view t = vid \<and> t_channel t = channel"
  using assms by (auto simp: newTimer_def armable_def split: option.splits)

lemma newTimer_none: "\<not> armable e st vid channel \<Longrightarrow> newTimer e st vid channel = []"
  by (simp add: newTimer_def)

lemma isManuallyOverridden_eq:
  "manualOverrides st' = manualOverrides st \<Longrightarrow>
     isManuallyOverridden st' channel vid = isManuallyOverridden st channel vid"
  by (simp add: isManuallyOverridden_def)

lemma eventsFor_eq:
  assumes "views st' = views st"
  shows "eventsFor e st' channel shown = eventsFor e st channel shown"
  unfolding eventsFor_def assms ..

lemma rotationTarget_eq:
  assumes "views st' = views st"
  shows "rotationTarget e st' channel = rotationTarget e st channel"
proof -
  have "emptyGallery e st' = emptyGallery e st"
    by (rule ext) (rule emptyGallery_views[OF assms])
  then show ?thesis
    unfolding rotationTarget_def scheduledViews_views[OF assms] by simp
qed

lemma callback_eligible:
  assumes "channelCurrentViews st channel = Some viewId"
    and "isManuallyOverridden st channel viewId"
    and "views st viewId = Some view"
    and "isViewScheduled view (clock e)"
  shows "rotationCallback e st viewId channel = (None, scheduleViewRotation e st viewId channel)"
  using assms by (simp add: rotationCallback_def Let_def)

lemma callback_ineligible:
  assumes "channelCurrentViews st channel = Some viewId"
    and "isManuallyOverridden st channel viewId"
    and "views st viewId = Some view"
    and "\<not> isViewScheduled view (clock e)"
  shows "rotationCallback e st viewId channel =
     (None,
      case rotationTarget e st channel of
        None \<Rightarrow> clearOverride st channel viewId
      | Some nxt \<Rightarrow>
          snd (setCurrentView e (clearOverride (clearOverride st channel viewId) channel viewId)
                 nxt channel False))"
proof -
  let ?st1 = "clearOverride st channel viewId"
  from assms(2) have had: "manualOverrides st channel \<noteq> None"
    by (auto simp: isManuallyOverridden_def split: option.splits)
  have v1: "views ?st1 = views st" by (rule clearOverride_fields)
  from assms(3,4) have "\<not> eligibleNow e ?st1 viewId"
    by (simp add: eligibleNow_def v1)
  from rotate_ineligible[OF this, of channel True]
  have "rotate e ?st1 viewId channel True =
     (case rotationTarget e st channel of
        None \<Rightarrow> ?st1
      | Some nxt \<Rightarrow> snd (setCurrentView e (clearOverride ?st1 channel viewId) nxt channel False))"
    by (simp add: rotationTarget_eq[OF v1])
  then show ?thesis
    using assms had by (simp add: rotationCallback_def Let_def)
qed

lemma overridden_fire_result:
  assumes "channel \<noteq> []"
    and "channelCurrentViews st channel = Some viewId"
    and "isManuallyOverridden st channel viewId"
    and "views st viewId = Some view"
    and "rotationCallback e st viewId channel = (err, st')"
  shows "err = None
       \<and> (isViewScheduled view (clock e) \<longrightarrow>
             channelCurrentViews st' = channelCurrentViews st
           \<and> manualOverrides st' = manualOverrides st
           \<and> published st' = published st
           \<and> views st' = views st
           \<and> timers st' = (if hasMetadata st viewId
                            then afterClear st channel @ newTimer e st viewId channel
                            else timers st)
           \<and> (armable e st viewId channel \<longrightarrow> armedFor st' viewId channel))
       \<and> (\<not> isViewScheduled view (clock e) \<longrightarrow>
             \<not> isManuallyOverridden st' channel viewId
           \<and> (case rotationTarget e st channel of
                 None \<Rightarrow> channelCurrentViews st' = channelCurrentViews st
                          \<and> published st' = published st \<and> timers st' = timers st
               | Some nxt \<Rightarrow>
                   nxt \<noteq> [] \<longrightarrow>
                     channelCurrentViews st' channel = Some nxt
                   \<and> published st' = published st @ eventsFor e st channel (Some nxt)
                   \<and> timers st' = (if hasMetadata st nxt
                                    then afterClear st channel @ newTimer e st nxt channel
                                    else timers st)))"
proof (cases "isViewScheduled view (clock e)")
  case True
  from callback_eligible[OF assms(2,3,4) True] assms(5)
  have r: "err = None" "st' = scheduleViewRotation e st viewId channel" by simp_all
  have t: "timers st' = (if hasMetadata st viewId
                            then afterClear st channel @ newTimer e st viewId channel
                            else timers st)"
    unfolding r by (rule schedule_timers')
  have a: "armedFor st' viewId channel" if arm: "armable e st viewId channel"
  proof -
    from arm have "hasMetadata st viewId"
      by (auto simp: armable_def hasMetadata_def split: option.splits)
    with t newTimer_armed[OF arm] show ?thesis
      by (auto simp: armedFor_def list_ex_iff)
  qed
  show ?thesis
    using True r(1) t a unfolding r(2) by (simp add: schedule_keeps)
next
  case False
  let ?st1 = "clearOverride st channel viewId"
  let ?st2 = "clearOverride ?st1 channel viewId"
  from callback_ineligible[OF assms(2,3,4) False] assms(5)
  have r: "err = None"
    "st' = (case rotationTarget e st channel of
        None \<Rightarrow> ?st1
      | Some nxt \<Rightarrow> snd (setCurrentView e ?st2 nxt channel False))"
    by simp_all
  have v2: "views ?st2 = views st" by (simp add: clearOverride_fields)
  show ?thesis
  proof (cases "rotationTarget e st channel")
    case None
    then show ?thesis
      using False r by (simp add: clearOverride_fields clearOverride_removes)
  next
    case (Some nxt)
    then have st': "st' = snd (setCurrentView e ?st2 nxt channel False)"
      using r by simp
    from rotationTarget_member[OF Some]
    have m: "views st nxt \<noteq> None" "nxt \<in> set (getChannelViews e channel)" "eligibleNow e st nxt"
      by (rule scheduledViews_member)+
    obtain err2 where run: "setCurrentView e ?st2 nxt channel False = (err2, st')"
      using st' by (cases "setCurrentView e ?st2 nxt channel False") simp
    note res = setCurrentView_result[OF assms(1) run]
    from res m have ok: "err2 = None" by (simp add: v2)
    from res ok have ov: "manualOverrides st' = manualOverrides ?st2" by simp
    have no: "\<not> isManuallyOverridden st' channel viewId"
      unfolding isManuallyOverridden_eq[OF ov] by (rule clearOverride_removes)
    have rest: "channelCurrentViews st' channel = Some nxt
                   \<and> published st' = published st @ eventsFor e st channel (Some nxt)
                   \<and> timers st' = (if hasMetadata st nxt
                                    then afterClear st channel @ newTimer e st nxt channel
                                    else timers st)" if ne: "nxt \<noteq> []"
    proof -
      have sh: "shownAfterSet e ?st2 nxt channel False = Some nxt"
        using ne m(3) by (simp add: shownAfterSet_def eligibleNow_views[OF v2])
      have ac: "afterClear ?st2 channel = afterClear st channel"
        by (rule afterClear_eq) (simp_all add: clearOverride_fields)
      have nt: "newTimer e ?st2 nxt channel = newTimer e st nxt channel"
        by (rule newTimer_eq) (simp_all add: clearOverride_fields)
      have hm: "hasMetadata ?st2 nxt = hasMetadata st nxt"
        by (rule hasMetadata_eq) (rule v2)
      from res ok show ?thesis
        by (simp add: sh ac nt hm eventsFor_eq[OF v2] clearOverride_fields)
    qed
    show ?thesis
      using False r(1) no rest Some by simp
  qed
qed

subsection \<open>The claims about the scheduler\<close>

text \<open>
  C1. For every (named) channel, \<open>getCurrentView(channel)\<close> returns the current view
  unconditionally when it is set, exists, is a channel member and is in the channel's
  override set (and returns it as well when it is not overridden but eligible now);
  when it falls through (there is no valid current view, or the valid current view is
  neither overridden nor eligible now), it returns the first view in the channel's
  configured order that exists and is eligible now, and \<open>null\<close> when there is none. The
  call is total: it never raises.
\<close>

theorem getCurrentView_selection:
  assumes "channel \<noteq> []"
  shows "(\<forall>viewId. validCurrent e st channel viewId \<and> isManuallyOverridden st channel viewId \<longrightarrow>
            fst (getCurrentView e st channel) = views st viewId \<and> views st viewId \<noteq> None)
       \<and> (\<forall>viewId. validCurrent e st channel viewId \<and> \<not> isManuallyOverridden st channel viewId
              \<and> eligibleNow e st viewId \<longrightarrow>
            fst (getCurrentView e st channel) = views st viewId \<and> views st viewId \<noteq> None)
       \<and> (fallsThrough e st channel \<longrightarrow>
            (case firstEligible e st channel of
               None \<Rightarrow> fst (getCurrentView e st channel) = None
             | Some first \<Rightarrow> fst (getCurrentView e st channel) = views st first
                               \<and> views st first \<noteq> None))"
proof (intro conjI allI impI)
  fix viewId
  assume a: "validCurrent e st channel viewId \<and> isManuallyOverridden st channel viewId"
  then have "\<not> fallsThrough e st channel"
    by (auto simp: fallsThrough_def validCurrent_def)
  with a show "fst (getCurrentView e st channel) = views st viewId"
    by (simp add: getCurrentView_cases[OF assms] validCurrent_def)
  from a show "views st viewId \<noteq> None" by (simp add: validCurrent_def)
next
  fix viewId
  assume a: "validCurrent e st channel viewId \<and> \<not> isManuallyOverridden st channel viewId
              \<and> eligibleNow e st viewId"
  then have "\<not> fallsThrough e st channel"
    by (auto simp: fallsThrough_def validCurrent_def)
  with a show "fst (getCurrentView e st channel) = views st viewId"
    by (simp add: getCurrentView_cases[OF assms] validCurrent_def)
  from a show "views st viewId \<noteq> None" by (simp add: validCurrent_def)
next
  assume f: "fallsThrough e st channel"
  show "case firstEligible e st channel of
               None \<Rightarrow> fst (getCurrentView e st channel) = None
             | Some first \<Rightarrow> fst (getCurrentView e st channel) = views st first
                               \<and> views st first \<noteq> None"
  proof (cases "firstEligible e st channel")
    case None
    then show ?thesis using f by (simp add: getCurrentView_cases[OF assms] reselect_def)
  next
    case (Some first)
    with firstEligible_exists[OF Some] show ?thesis
      using f by (auto simp: getCurrentView_cases[OF assms] reselect_def)
  qed
qed

theorem getCurrentView_selection_witness:
  "''lobby'' \<noteq> []
   \<and> fallsThrough (ex_env ex_evening) ex_vm_office ''lobby''
   \<and> firstEligible (ex_env ex_evening) ex_vm_office ''lobby'' = Some ''notice''
   \<and> fst (getCurrentView (ex_env ex_evening) ex_vm_office ''lobby'') = Some ex_notice_view"
proof -
  have c: "''lobby'' \<noteq> []" by simp
  have f: "fallsThrough (ex_env ex_evening) ex_vm_office ''lobby''" by code_simp
  have e: "firstEligible (ex_env ex_evening) ex_vm_office ''lobby'' = Some ''notice''"
    by code_simp
  have v: "views ex_vm_office ''notice'' = Some ex_notice_view" by code_simp
  from getCurrentView_selection[OF c, of "ex_env ex_evening" ex_vm_office] f e v
  show ?thesis by simp
qed

text \<open>
  C10. \<open>getCurrentView(channel)\<close> is not read-only: when it falls through to re-selection
  on a named channel and some eligible member view exists, it sets the channel's
  current-view pointer to the first such view. That is its only effect: it publishes no
  event, arms and cancels no timer, and leaves the override set, the activation
  timestamps, the views and every other channel's pointer as they were; when it does not
  re-select, the state is unchanged.
\<close>

theorem getCurrentView_frame:
  assumes "getCurrentView e st channel = (r, st')"
  shows "published st' = published st \<and> deferredNext st' = deferredNext st
       \<and> timers st' = timers st \<and> nextTimer st' = nextTimer st
       \<and> channelRotations st' = channelRotations st
       \<and> manualOverrides st' = manualOverrides st
       \<and> viewActivationTime st' = viewActivationTime st
       \<and> views st' = views st \<and> currentView st' = currentView st
       \<and> (\<forall>c. c \<noteq> channel \<longrightarrow> channelCurrentViews st' c = channelCurrentViews st c)
       \<and> (channel \<noteq> [] \<and> fallsThrough e st channel \<longrightarrow>
            (\<forall>first. firstEligible e st channel = Some first \<longrightarrow>
               channelCurrentViews st' channel = Some first))
       \<and> (channel = [] \<or> \<not> fallsThrough e st channel \<or> firstEligible e st channel = None \<longrightarrow>
            st' = st)"
proof -
  from assms have s: "st' = snd (getCurrentView e st channel)" by simp
  have k: "published st' = published st \<and> deferredNext st' = deferredNext st
       \<and> timers st' = timers st \<and> nextTimer st' = nextTimer st
       \<and> channelRotations st' = channelRotations st
       \<and> manualOverrides st' = manualOverrides st
       \<and> viewActivationTime st' = viewActivationTime st
       \<and> views st' = views st \<and> currentView st' = currentView st"
    unfolding s by (simp add: getCurrentView_keeps)
  have o: "\<forall>c. c \<noteq> channel \<longrightarrow> channelCurrentViews st' c = channelCurrentViews st c"
    unfolding s by (simp add: getCurrentView_other)
  have p: "channel \<noteq> [] \<and> fallsThrough e st channel \<longrightarrow>
            (\<forall>first. firstEligible e st channel = Some first \<longrightarrow>
               channelCurrentViews st' channel = Some first)"
    unfolding s by (simp add: getCurrentView_cases reselect_def)
  have q: "channel = [] \<or> \<not> fallsThrough e st channel \<or> firstEligible e st channel = None \<longrightarrow>
            st' = st"
    unfolding s
    by (cases "channel = []") (auto simp: getCurrentView_legacy getCurrentView_cases reselect_def)
  from k o p q show ?thesis by blast
qed

theorem getCurrentView_frame_witness:
  "fallsThrough (ex_env ex_evening) ex_vm_office ''lobby''
   \<and> firstEligible (ex_env ex_evening) ex_vm_office ''lobby'' = Some ''notice''
   \<and> channelCurrentViews ex_vm_office ''lobby'' = Some ''office''
   \<and> channelCurrentViews (snd (getCurrentView (ex_env ex_evening) ex_vm_office ''lobby''))
        ''lobby'' = Some ''notice''
   \<and> published (snd (getCurrentView (ex_env ex_evening) ex_vm_office ''lobby''))
        = published ex_vm_office
   \<and> timers (snd (getCurrentView (ex_env ex_evening) ex_vm_office ''lobby''))
        = timers ex_vm_office
   \<and> manualOverrides (snd (getCurrentView (ex_env ex_evening) ex_vm_office ''lobby''))
        = manualOverrides ex_vm_office"
proof -
  have f: "fallsThrough (ex_env ex_evening) ex_vm_office ''lobby''" by code_simp
  have e: "firstEligible (ex_env ex_evening) ex_vm_office ''lobby'' = Some ''notice''"
    by code_simp
  have c: "channelCurrentViews ex_vm_office ''lobby'' = Some ''office''" by code_simp
  have r: "getCurrentView (ex_env ex_evening) ex_vm_office ''lobby''
      = (fst (getCurrentView (ex_env ex_evening) ex_vm_office ''lobby''),
         snd (getCurrentView (ex_env ex_evening) ex_vm_office ''lobby''))" by simp
  from getCurrentView_frame[OF r] f e c show ?thesis by simp
qed




text \<open>
  C2, as the code has it. For a named channel whose current view A carries a manual
  override and still exists: when A's rotation timer fires, the callback raises nothing.
  If the schedule evaluator still reports A eligible, A stays the current view, its
  override stays, nothing is published, and \<open>scheduleViewRotation\<close> runs for A: it arms a
  new timer for A when A has a positive delay and more than one member view is eligible
  now, and no timer otherwise. If A is no longer eligible, its override is removed and
  the callback rotates: to the first eligible member view that is not an empty gallery,
  by \<open>setCurrentView\<close> without the manual flag, or nowhere when there is none.
\<close>

theorem overridden_timer_fire:
  assumes "channel \<noteq> []"
    and "channelCurrentViews st channel = Some viewId"
    and "isManuallyOverridden st channel viewId"
    and "views st viewId = Some view"
    and "rotationCallback e st viewId channel = (err, st')"
  shows "err = None
       \<and> (isViewScheduled view (clock e) \<longrightarrow>
             channelCurrentViews st' = channelCurrentViews st
           \<and> manualOverrides st' = manualOverrides st
           \<and> published st' = published st
           \<and> views st' = views st
           \<and> timers st' = (if hasMetadata st viewId
                            then afterClear st channel @ newTimer e st viewId channel
                            else timers st)
           \<and> (armable e st viewId channel \<longrightarrow> armedFor st' viewId channel))
       \<and> (\<not> isViewScheduled view (clock e) \<longrightarrow>
             \<not> isManuallyOverridden st' channel viewId
           \<and> (case rotationTarget e st channel of
                 None \<Rightarrow> channelCurrentViews st' = channelCurrentViews st
                          \<and> published st' = published st \<and> timers st' = timers st
               | Some nxt \<Rightarrow>
                   nxt \<noteq> [] \<longrightarrow>
                     channelCurrentViews st' channel = Some nxt
                   \<and> published st' = published st @ eventsFor e st channel (Some nxt)
                   \<and> timers st' = (if hasMetadata st nxt
                                    then afterClear st channel @ newTimer e st nxt channel
                                    else timers st)))"
  by (rule overridden_fire_result[OF assms])

text \<open>
  The claim as first stated fails: \<open>notice\<close> is set by hand in the afternoon and its timer
  is armed; the timer fires in the evening, when \<open>notice\<close> is still the current view,
  still overridden and still eligible, but \<open>office\<close> is out of schedule, so that one
  eligible view is left: no timer is armed again.
\<close>

theorem overridden_timer_counterexample:
  "armedFor ex_vm_manual ''notice'' ''lobby''
   \<and> timers ex_vm_manual
        = [\<lparr>t_handle = 0, t_view = ''notice'', t_channel = ''lobby'', t_delay = 60000\<rparr>]
   \<and> fst (fireTimer (ex_env ex_evening) ex_vm_manual 0) = None
   \<and> channelCurrentViews (snd (fireTimer (ex_env ex_evening) ex_vm_manual 0)) ''lobby''
        = Some ''notice''
   \<and> isManuallyOverridden (snd (fireTimer (ex_env ex_evening) ex_vm_manual 0)) ''lobby'' ''notice''
   \<and> eligibleNow (ex_env ex_evening) (snd (fireTimer (ex_env ex_evening) ex_vm_manual 0)) ''notice''
   \<and> \<not> armedFor (snd (fireTimer (ex_env ex_evening) ex_vm_manual 0)) ''notice'' ''lobby''
   \<and> timers (snd (fireTimer (ex_env ex_evening) ex_vm_manual 0)) = []"
  by code_simp

theorem overridden_timer_fire_witness:
  "''lobby'' \<noteq> []
   \<and> channelCurrentViews (clearTimeout ex_vm_manual 0) ''lobby'' = Some ''notice''
   \<and> isManuallyOverridden (clearTimeout ex_vm_manual 0) ''lobby'' ''notice''
   \<and> views (clearTimeout ex_vm_manual 0) ''notice'' = Some ex_notice_view
   \<and> isViewScheduled ex_notice_view (clock (ex_env ex_afternoon))
   \<and> armable (ex_env ex_afternoon) (clearTimeout ex_vm_manual 0) ''notice'' ''lobby''
   \<and> armedFor (snd (rotationCallback (ex_env ex_afternoon) (clearTimeout ex_vm_manual 0)
                        ''notice'' ''lobby'')) ''notice'' ''lobby''
   \<and> channelCurrentViews (snd (rotationCallback (ex_env ex_afternoon) (clearTimeout ex_vm_manual 0)
                        ''notice'' ''lobby'')) ''lobby'' = Some ''notice''"
proof -
  let ?st = "clearTimeout ex_vm_manual 0"
  let ?e = "ex_env ex_afternoon"
  have c: "''lobby'' \<noteq> []" by simp
  have p: "channelCurrentViews ?st ''lobby'' = Some ''notice''" by code_simp
  have o: "isManuallyOverridden ?st ''lobby'' ''notice''" by code_simp
  have v: "views ?st ''notice'' = Some ex_notice_view" by code_simp
  have s: "isViewScheduled ex_notice_view (clock ?e)" by code_simp
  have a: "armable ?e ?st ''notice'' ''lobby''" by code_simp
  have r: "rotationCallback ?e ?st ''notice'' ''lobby''
      = (fst (rotationCallback ?e ?st ''notice'' ''lobby''),
         snd (rotationCallback ?e ?st ''notice'' ''lobby''))" by simp
  from overridden_timer_fire[OF c p o v r] s a p o v show ?thesis by simp
qed

lemma armedFor_after_schedule:
  assumes "armable e st viewId channel"
  shows "armedFor (scheduleViewRotation e st viewId channel) viewId channel"
proof -
  from assms have "hasMetadata st viewId"
    by (auto simp: armable_def hasMetadata_def split: option.splits)
  with schedule_timers'[of e st viewId channel] newTimer_armed[OF assms] show ?thesis
    by (auto simp: armedFor_def list_ex_iff)
qed

text \<open>
  Repeated firings: as long as the overridden view stays eligible and the arming
  condition holds at each firing, the callbacks of the timers armed for it leave it the
  current view, overridden, with nothing published, and a timer armed for it again.
\<close>

lemma override_persists:
  assumes "channelCurrentViews st channel = Some viewId"
    and "isManuallyOverridden st channel viewId"
    and "views st viewId = Some view"
    and "\<forall>e \<in> set es. isViewScheduled view (clock e) \<and> armable e st viewId channel"
  shows "channelCurrentViews (foldl (\<lambda>s e. snd (rotationCallback e s viewId channel)) st es)
           = channelCurrentViews st
       \<and> manualOverrides (foldl (\<lambda>s e. snd (rotationCallback e s viewId channel)) st es)
           = manualOverrides st
       \<and> published (foldl (\<lambda>s e. snd (rotationCallback e s viewId channel)) st es)
           = published st
       \<and> views (foldl (\<lambda>s e. snd (rotationCallback e s viewId channel)) st es) = views st
       \<and> (es \<noteq> [] \<longrightarrow>
            armedFor (foldl (\<lambda>s e. snd (rotationCallback e s viewId channel)) st es)
              viewId channel)"
  using assms
proof (induction es arbitrary: st rule: rev_induct)
  case Nil
  then show ?case by simp
next
  case (snoc e es)
  let ?s = "foldl (\<lambda>s e. snd (rotationCallback e s viewId channel)) st es"
  from snoc.prems have pre: "\<forall>e \<in> set es. isViewScheduled view (clock e) \<and> armable e st viewId channel"
    and el: "isViewScheduled view (clock e)" and ar: "armable e st viewId channel"
    by auto
  from snoc.IH[OF snoc.prems(1,2,3) pre]
  have ih: "channelCurrentViews ?s = channelCurrentViews st" "manualOverrides ?s = manualOverrides st"
    "published ?s = published st" "views ?s = views st" by simp_all
  have p: "channelCurrentViews ?s channel = Some viewId" using ih snoc.prems(1) by simp
  have o: "isManuallyOverridden ?s channel viewId"
    using snoc.prems(2) by (simp add: isManuallyOverridden_eq[OF ih(2)])
  have v: "views ?s viewId = Some view" using ih snoc.prems(3) by simp
  have step: "snd (rotationCallback e ?s viewId channel) = scheduleViewRotation e ?s viewId channel"
    using callback_eligible[OF p o v el] by simp
  have ar': "armable e ?s viewId channel"
    using ar by (simp add: armable_views[OF ih(4)])
  show ?case
    using ih armedFor_after_schedule[OF ar'] by (simp add: step schedule_keeps)
qed

section \<open>The broadcast hub\<close>

subsection \<open>The fan-out loop\<close>

lemma deliver_loop_fields:
  "ipConnections (foldl (deliver f ch m) st rs) = ipConnections st"
  "redisCallbacks (foldl (deliver f ch m) st rs) = redisCallbacks st"
  "nextCallback (foldl (deliver f ch m) st rs) = nextCallback st"
  "closeHooks (foldl (deliver f ch m) st rs) = closeHooks st"
  "destroyed (foldl (deliver f ch m) st rs) = destroyed st"
  by (induction rs arbitrary: st; simp add: deliver_def)+

lemma deliver_loop_clientMap:
  "clientMap (foldl (deliver f ch m) st rs) r
     = (if r \<in> set rs \<and> f r then None else clientMap st r)"
  by (induction rs arbitrary: st) (auto simp: deliver_def)

lemma deliver_loop_written:
  "written (foldl (deliver f ch m) st rs)
     = written st @ map (\<lambda>r. (r, m)) (filter (\<lambda>r. \<not> f r) rs)"
  by (induction rs arbitrary: st) (auto simp: deliver_def)

lemma deliver_step_channels:
  "channels (deliver f ch m st x) c
      = (if c = ch \<and> f x then map_option (filter (\<lambda>r. r \<noteq> x)) (channels st c)
         else channels st c)"
  by (cases "channels st ch")
     (auto simp: deliver_def removeAll_filter_not_eq split: option.splits intro: filter_cong)

lemma deliver_loop_other:
  "c \<noteq> ch \<Longrightarrow> channels (foldl (deliver f ch m) st rs) c = channels st c"
  by (induction rs arbitrary: st) (simp_all add: deliver_step_channels)

lemma deliver_loop_same:
  "channels (foldl (deliver f ch m) st rs) ch
     = map_option (filter (\<lambda>r. \<not> (r \<in> set rs \<and> f r))) (channels st ch)"
proof (induction rs arbitrary: st)
  case Nil
  show ?case by (cases "channels st ch") auto
next
  case (Cons x xs)
  show ?case
  proof (cases "channels st ch")
    case None
    then show ?thesis by (simp add: Cons deliver_step_channels)
  next
    case (Some cs)
    have "filter (\<lambda>r. \<not> (r \<in> set xs \<and> f r)) (filter (\<lambda>r. r \<noteq> x) cs)
        = filter (\<lambda>r. \<not> (r \<in> set (x # xs) \<and> f r)) cs" if "f x"
      using that by (auto intro: filter_cong)
    moreover have "filter (\<lambda>r. \<not> (r \<in> set xs \<and> f r)) cs
        = filter (\<lambda>r. \<not> (r \<in> set (x # xs) \<and> f r)) cs" if "\<not> f x"
      using that by (auto intro: filter_cong)
    ultimately show ?thesis
      using Some by (simp add: Cons deliver_step_channels)
  qed
qed

lemma deliver_loop_channels:
  "channels (foldl (deliver f ch m) st rs) c
     = (if c = ch then map_option (filter (\<lambda>r. \<not> (r \<in> set rs \<and> f r))) (channels st c)
        else channels st c)"
  by (simp add: deliver_loop_same deliver_loop_other)

lemma deliver_loop_sinkOf:
  "sinkOf (foldl (deliver f ch m) st rs) c r
     = (sinkOf st c r \<and> \<not> (c = ch \<and> r \<in> set rs \<and> f r))"
  by (cases "channels st c") (auto simp: sinkOf_def deliver_loop_channels)

lemma deliver_loop_none:
  "(channels (foldl (deliver f ch m) st rs) c = None) = (channels st c = None)"
  by (simp add: deliver_loop_channels)

subsection \<open>The fan-out, field by field\<close>

lemma fanout_fields:
  "ipConnections (redisCallback rw f st ch m) = ipConnections st"
  "redisCallbacks (redisCallback rw f st ch m) = redisCallbacks st"
  "nextCallback (redisCallback rw f st ch m) = nextCallback st"
  "closeHooks (redisCallback rw f st ch m) = closeHooks st"
  "destroyed (redisCallback rw f st ch m) = destroyed st"
  by (simp_all add: redisCallback_def deliver_loop_fields split: option.splits)

lemma fanout_sinkOf:
  "sinkOf (redisCallback rw f st ch m) c r = (sinkOf st c r \<and> \<not> (c = ch \<and> f r))"
proof (cases "channels st ch")
  case None
  then have "\<not> sinkOf st ch r" by (simp add: sinkOf_def)
  with None show ?thesis by (auto simp: redisCallback_def)
next
  case (Some cs)
  then have "sinkOf st ch r = (r \<in> set cs)" by (simp add: sinkOf_def)
  with Some show ?thesis by (auto simp: redisCallback_def deliver_loop_sinkOf)
qed

lemma fanout_clientMap:
  "clientMap (redisCallback rw f st ch m) r
     = (if sinkOf st ch r \<and> f r then None else clientMap st r)"
proof (cases "channels st ch")
  case None
  then have "\<not> sinkOf st ch r" by (simp add: sinkOf_def)
  with None show ?thesis by (auto simp: redisCallback_def)
next
  case (Some cs)
  then have "sinkOf st ch r = (r \<in> set cs)" by (simp add: sinkOf_def)
  with Some show ?thesis by (auto simp: redisCallback_def deliver_loop_clientMap)
qed

lemma fanout_none:
  "(channels (redisCallback rw f st ch m) c = None) = (channels st c = None)"
  by (cases "channels st ch") (auto simp: redisCallback_def deliver_loop_none)

lemma fanout_originSinks:
  "originSinks (redisCallback rw f st ch m) i = originSinks st i"
  by (simp add: originSinks_def fanout_fields)

lemma fanout_written:
  "written (redisCallback rw f st ch m)
     = written st @
        (case channels st ch of
           None \<Rightarrow> []
         | Some clients \<Rightarrow>
             map (\<lambda>r. (r, processMessage rw m)) (filter (\<lambda>r. \<not> f r) clients))"
  by (simp add: redisCallback_def deliver_loop_written split: option.splits)

lemma fanout_channel:
  "channels (redisCallback rw f st ch m) c
     = (if c = ch then map_option (filter (\<lambda>r. \<not> f r)) (channels st c) else channels st c)"
proof (cases "channels st ch")
  case None
  then show ?thesis by (auto simp: redisCallback_def)
next
  case (Some cs)
  have "filter (\<lambda>r. \<not> (r \<in> set cs \<and> f r)) cs = filter (\<lambda>r. \<not> f r) cs"
    by (auto intro: filter_cong)
  then show ?thesis using Some by (auto simp: redisCallback_def deliver_loop_channels)
qed
subsection \<open>\<open>unsubscribeClient\<close>, field by field\<close>















subsection \<open>The eviction of an adapter\<close>

text \<open>
  The eviction of a sink that is a \<open>BleResponseAdapter\<close>: \<open>destroy\<close> emits \<open>'close'\<close>
  within the eviction loop, so \<open>unsubscribeClient\<close> runs there, tears the emptied
  channel down and waits at its \<open>await\<close>, before \<open>subscribeClient\<close> reaches its own.
\<close>

lemma adapter_eviction_closes_in_the_loop:
  "channels ex_ble1 ''X'' = Some [1] \<and> channelCallbacks ex_ble1 ''X'' = Some [0]
   \<and> 1 \<in> destroyed (snd ex_ble2)
   \<and> channels (snd ex_ble2) ''X'' = None \<and> channelCallbacks (snd ex_ble2) ''X'' = None
   \<and> originSinks (snd ex_ble2) ''BLE'' = []
   \<and> topics (snd ex_ble2) = [''Y'']
   \<and> pending (snd ex_ble2)
        = [AwaitUnsubscribe ''X'', AwaitSubscribe ''Y'' 2 ''BLE-SERVER'' ''BLE'' 1 True]"
  by code_simp

subsection \<open>The claims about the hub\<close>

text \<open>
  C5. The code at the failing input: two requests of origin 10.0.0.1 for channel \<open>X\<close>,
  which nobody watches yet. The call for sink 1 finds no entry of the origin to evict,
  makes the channel's set and waits at \<open>await subscribe(channel, callback)\<close>, not yet
  registered. The call for sink 2 runs meanwhile: it finds no entry of the origin either,
  registers sink 2 and returns. When Redis answers, the call for sink 1 runs on and
  registers sink 1. It completes with both sinks in the set of \<open>X\<close>, both with a client
  record of the origin, both in the origin index, and neither connection closed.

  When the second call starts after the first has completed, it does evict: in
  \<open>ex_hub2\<close> sink 2 is the only sink of the origin, and sink 1 is closed and gone from
  the set of its channel, from the client records and from the origin index.
\<close>

theorem subscribe_race_keeps_both_sinks:
  "fst ex_first_waits = Awaits (AwaitSubscribe ''X'' 1 ''tablet-a'' ''10.0.0.1'' 0 True)
   \<and> channels (snd ex_first_waits) ''X'' = Some []
   \<and> originSinks (snd ex_first_waits) ''10.0.0.1'' = []
   \<and> fst ex_second_done = Returns
   \<and> channels (snd ex_second_done) ''X'' = Some [2]
   \<and> fst ex_first_done = None
   \<and> pending (snd ex_first_done) = []
   \<and> channels (snd ex_first_done) ''X'' = Some [2, 1]
   \<and> clientMap (snd ex_first_done) 1
        = Some \<lparr>clientId = ''tablet-a'', info_channel = ''X'', info_ip = ''10.0.0.1''\<rparr>
   \<and> clientMap (snd ex_first_done) 2
        = Some \<lparr>clientId = ''tablet-b'', info_channel = ''X'', info_ip = ''10.0.0.1''\<rparr>
   \<and> originSinks (snd ex_first_done) ''10.0.0.1'' = [(2, ''X''), (1, ''X'')]
   \<and> 1 \<notin> destroyed (snd ex_first_done) \<and> 2 \<notin> destroyed (snd ex_first_done)
   \<and> channels ex_hub2 ''Y'' = Some [2] \<and> originSinks ex_hub2 ''10.0.0.1'' = [(2, ''Y'')]
   \<and> 1 \<in> destroyed ex_hub2 \<and> \<not> sinkOf ex_hub2 ''X'' 1 \<and> clientMap ex_hub2 1 = None"
  by code_simp

text \<open>
  C6. The code at the failing input: sinks 1 and 2 subscribe to channel \<open>X\<close> from two
  origins, and the write to sink 1 fails during a fan-out. Sink 1 leaves the channel's set
  and loses its client record, sink 2 still gets the message, but the origin index keeps
  the entry of sink 1, and the \<open>unsubscribeClient\<close> that the close of sink 1 brings does
  not remove it either (the client record that names the origin is gone).
\<close>

theorem fanout_failure_keeps_origin_entry:
  "channels ex_hub_pair ''X'' = Some [1, 2]
   \<and> originSinks ex_hub_pair ''10.0.0.1'' = [(1, ''X'')]
   \<and> channels (redisCallback (\<lambda>v. v) (\<lambda>r. r = 1) ex_hub_pair ''X'' ex_message) ''X'' = Some [2]
   \<and> clientMap (redisCallback (\<lambda>v. v) (\<lambda>r. r = 1) ex_hub_pair ''X'' ex_message) 1 = None
   \<and> written (redisCallback (\<lambda>v. v) (\<lambda>r. r = 1) ex_hub_pair ''X'' ex_message) = [(2, ex_message)]
   \<and> originSinks (redisCallback (\<lambda>v. v) (\<lambda>r. r = 1) ex_hub_pair ''X'' ex_message) ''10.0.0.1''
        = [(1, ''X'')]
   \<and> originSinks (unsubscribeClient
         (redisCallback (\<lambda>v. v) (\<lambda>r. r = 1) ex_hub_pair ''X'' ex_message) ''X'' 1) ''10.0.0.1''
        = [(1, ''X'')]"
  by code_simp

text \<open>
  What the fan-out does in every state: a sink of the channel whose write fails leaves
  the channel's set and loses its client record; every other sink of the channel is
  written the processed message; the origin index is not touched.
\<close>

lemma fanout_effects:
  "sinkOf (redisCallback rw f st ch m) c r = (sinkOf st c r \<and> \<not> (c = ch \<and> f r))"
  "clientMap (redisCallback rw f st ch m) r
     = (if sinkOf st ch r \<and> f r then None else clientMap st r)"
  "sinkOf st ch r \<Longrightarrow> \<not> f r \<Longrightarrow> (r, processMessage rw m) \<in> set (written (redisCallback rw f st ch m))"
  "ipConnections (redisCallback rw f st ch m) = ipConnections st"
proof -
  show "sinkOf (redisCallback rw f st ch m) c r = (sinkOf st c r \<and> \<not> (c = ch \<and> f r))"
    by (rule fanout_sinkOf)
  show "clientMap (redisCallback rw f st ch m) r
     = (if sinkOf st ch r \<and> f r then None else clientMap st r)"
    by (rule fanout_clientMap)
  show "ipConnections (redisCallback rw f st ch m) = ipConnections st"
    by (rule fanout_fields)
  show "(r, processMessage rw m) \<in> set (written (redisCallback rw f st ch m))"
    if "sinkOf st ch r" "\<not> f r"
    using that by (cases "channels st ch") (auto simp: fanout_written sinkOf_def)
qed

text \<open>
  C8. The code at the failing input: a reconnect. Sink 1 is the only sink of channel
  \<open>X\<close>, which holds one bus subscription (callback 0). Its connection closes:
  \<open>unsubscribeClient\<close> deletes the channel's set, has redis.js drop callback 0 and send
  the unsubscribe command, and waits at \<open>await unsubscribe(channel, callback)\<close>.
  Meanwhile the display connects again as sink 2: \<open>subscribeClient\<close> makes a new set for
  \<open>X\<close>, records callback 1 in \<open>redisCallbacks\<close>, has redis.js send the subscribe command
  and waits. Redis answers the first command and \<open>unsubscribeClient\<close> runs on:
  \<open>this.redisCallbacks.delete(channel)\<close> deletes the record of callback 1. Redis answers
  the second and \<open>subscribeClient\<close> runs on: callback 1 is subscribed and sink 2
  registered, with no callback on record for \<open>X\<close>. When the connection of sink 2 closes,
  \<open>unsubscribeClient\<close> deletes the set of \<open>X\<close>, finds no callback on record and returns:
  \<open>X\<close> has no sink and no sink set, no call is waiting, and the hub still holds the bus
  subscription of \<open>X\<close> (callback 1 in redis.js, the connection subscribed to \<open>X\<close> at
  Redis). A later sink 3 of \<open>X\<close> adds a second callback beside it, and the unsubscribe
  of sink 3 takes only that one away.

  Also with each call run to its end before the next: in \<open>ex_hub2\<close> the eviction of sink 1
  (an HTTP response) has left the set of \<open>X\<close> empty while the bus subscription of \<open>X\<close> is
  held, until the close event of sink 1 runs \<open>unsubscribeClient\<close>, which closes it.
\<close>

theorem reconnect_leaks_bus_subscription:
  "channels ex_hub1 ''X'' = Some [1] \<and> channelCallbacks ex_hub1 ''X'' = Some [0]
   \<and> topics ex_hub1 = [''X'']
   \<and> fst ex_closing = Awaits (AwaitUnsubscribe ''X'')
   \<and> channels (snd ex_closing) ''X'' = None \<and> channelCallbacks (snd ex_closing) ''X'' = None
   \<and> topics (snd ex_closing) = []
   \<and> fst ex_reconnecting = Awaits (AwaitSubscribe ''X'' 2 ''tablet-a'' ''10.0.0.1'' 1 True)
   \<and> redisCallbacks (snd ex_reconnecting) ''X'' = Some 1
   \<and> fst ex_closed = None \<and> redisCallbacks (snd ex_closed) ''X'' = None
   \<and> fst ex_reconnected = None \<and> pending (snd ex_reconnected) = []
   \<and> channels (snd ex_reconnected) ''X'' = Some [2]
   \<and> redisCallbacks (snd ex_reconnected) ''X'' = None
   \<and> channelCallbacks (snd ex_reconnected) ''X'' = Some [1]
   \<and> fst (unsubscribeClient_begin (snd ex_reconnected) ''X'' 2) = Returns
   \<and> channels ex_leak ''X'' = None \<and> channels ex_leak ''Y'' = None
   \<and> clientMap ex_leak 1 = None \<and> clientMap ex_leak 2 = None
   \<and> pending ex_leak = []
   \<and> channelCallbacks ex_leak ''X'' = Some [1] \<and> topics ex_leak = [''X'']
   \<and> channels ex_leak_watched ''X'' = Some [3]
   \<and> channelCallbacks ex_leak_watched ''X'' = Some [1, 2]
   \<and> channels ex_leak_left ''X'' = None \<and> redisCallbacks ex_leak_left ''X'' = None
   \<and> channelCallbacks ex_leak_left ''X'' = Some [1] \<and> topics ex_leak_left = [''X'']
   \<and> channels ex_hub2 ''X'' = Some [] \<and> channelCallbacks ex_hub2 ''X'' = Some [0]
   \<and> topics ex_hub2 = [''X'', ''Y'']
   \<and> channels (unsubscribeClient ex_hub2 ''X'' 1) ''X'' = None
   \<and> channelCallbacks (unsubscribeClient ex_hub2 ''X'' 1) ''X'' = None
   \<and> topics (unsubscribeClient ex_hub2 ''X'' 1) = [''Y'']"
  by code_simp


end
